theory Spec2Isabelle
  imports Complex_Main
begin

section \<open>The virtualised list view of reactxp\<close>

text \<open>
  The development embeds \<^verbatim>\<open>VirtualListView.tsx\<close> (the vertical list, class
  \<^verbatim>\<open>VirtualListView\<close>) function by function. The horizontal list
  (\<^verbatim>\<open>VirtualListViewHorizontal\<close>) is the same text with the primary axis renamed
  (\<^verbatim>\<open>top\<close> to \<^verbatim>\<open>left\<close>, \<^verbatim>\<open>height\<close> to \<^verbatim>\<open>width\<close>), except for the
  guard of its scroll handler, which is embedded separately below.

  Conventions of the embedding.
  \<^item> The instance fields of the class are the fields of the record \<open>listView\<close>, with the
    leading underscore dropped. Every method takes the instance and returns the updated one.
  \<^item> Pixel quantities (JavaScript numbers) are rationals: the arithmetic of the source
    (sums, differences, products with the overdraw factors, comparisons) is exact on them.
    Rounding of IEEE doubles is outside the model.
  \<^item> An optional flag of an item (\<^verbatim>\<open>measureHeight\<close>, \<^verbatim>\<open>isNavigable\<close>) is a
    Boolean, absent meaning false; the optional template is an option. A JavaScript
    \<^verbatim>\<open>Map\<close> is a partial function, a \<^verbatim>\<open>Set\<close> of keys a set, and its
    \<^verbatim>\<open>size\<close> the cardinality of the set.
  \<^item> The three item counters are integers, and every read of the item list by a counter
    goes through \<open>itemAt\<close>, which yields \<open>None\<close> where the JavaScript read yields
    \<^verbatim>\<open>undefined\<close>.
  \<^item> A thrown exception is a value \<open>Inl e\<close>: a failed \<^verbatim>\<open>assert\<close>, or the
    \<^verbatim>\<open>TypeError\<close> of reading a property of \<^verbatim>\<open>undefined\<close>.
  \<^item> A cell object is referenced from exactly one container at a time (the map of
    active cells or the list of recycled cells), so cells are record values; the
    identity of a cell object is its \<open>virtualKey\<close>, which the source generates from a
    counter that only grows.
  \<^item> Calls on a mounted cell component (\<^verbatim>\<open>setVisibility\<close>, \<^verbatim>\<open>setTop\<close>,
    \<^verbatim>\<open>setItemKey\<close>, \<^verbatim>\<open>focus\<close>) and calls of \<^verbatim>\<open>logInfo\<close> act on the
    rendering substrate or on the log only; they are left out. Calls of
    \<^verbatim>\<open>forceUpdate\<close>, of \<^verbatim>\<open>_.defer\<close> and of the caller's \<^verbatim>\<open>onScroll\<close>
    are recorded in trace fields of the record (\<open>forceUpdateCalls\<close>,
    \<open>deferredCalls\<close>, \<open>onScrollCalls\<close>).
\<close>

subsection \<open>Data\<close>

datatype error = AssertionFailed string | TypeError string

datatype FocusDirection = Up | Down

text \<open>\<^verbatim>\<open>VirtualListViewItemInfo\<close>: the descriptor of one item.\<close>

record item =
  key :: string
  height :: rat
  measureHeight :: bool
  template :: "string option"
  isNavigable :: bool

text \<open>
  \<^verbatim>\<open>VirtualListViewProps\<close>, the fields the embedded methods read. \<open>hasOnScroll\<close>
  says whether the caller supplied the \<^verbatim>\<open>onScroll\<close> callback; an absent
  \<^verbatim>\<open>padding\<close> is the padding 0 (both are falsy).
\<close>

record props =
  itemList :: "item list"
  initialSelectedKey :: "string option"
  skipRenderIfItemUnchanged :: bool
  padding :: rat
  hasOnScroll :: bool

text \<open>
  \<^verbatim>\<open>VirtualCellInfo\<close>. The virtual key \<^verbatim>\<open>'vc_' + n\<close> is represented by \<open>n\<close>.
\<close>

record cell =
  virtualKey :: nat
  itemTemplate :: "string option"
  isHeightConstant :: bool
  height_cell :: rat
  cachedItemKey :: string
  top_cell :: rat
  isVisible :: bool
  shouldUpdate :: bool

record listView =
  props :: props
  lastFocusedItemKey :: "string option"
  lastScrollTop :: rat
  layoutHeight :: rat
  layoutWidth :: rat
  contentWidth :: rat
  isMounted :: bool
  containerHeight :: rat
  itemMap :: "string \<rightharpoonup> nat"
  isRenderDirty :: bool
  pendingAnimations :: "string set"
  heightAboveRenderAdjustment :: rat
  heightAboveRenderBlock :: rat
  heightOfRenderBlock :: rat
  heightBelowRenderBlock :: rat
  itemsAboveRenderBlock :: int
  itemsInRenderBlock :: int
  itemsBelowRenderBlock :: int
  pendingMeasurements :: "string set"
  isInitialFillComplete :: bool
  heightCache :: "string \<rightharpoonup> rat"
  nextCellKey :: nat
  activeCells :: "string \<rightharpoonup> cell"
  recycledCells :: "cell list"
  navigatableItemsRendered :: "(string \<times> nat) list"
  pendingFocusDirection :: "FocusDirection option"
  maxRecycledCells :: nat
  isScreenReaderEnabled :: bool
  renderOverdrawFactor :: rat
  minOverdrawAmount :: rat
  maxOverdrawAmount :: rat
  cullFraction :: rat
  minCullAmount :: rat
  forceUpdateCalls :: nat
  deferredCalls :: nat
  onScrollCalls :: "(rat \<times> rat) list"

text \<open>The field initialisers of the class: the instance before the constructor body runs.\<close>

definition newListView :: "props \<Rightarrow> listView" where
  "newListView p =
     \<lparr>props = p, lastFocusedItemKey = None, lastScrollTop = 0, layoutHeight = 0, layoutWidth = 0,
      contentWidth = -1, isMounted = False, containerHeight = 0, itemMap = Map.empty,
      isRenderDirty = False, pendingAnimations = {}, heightAboveRenderAdjustment = 0,
      heightAboveRenderBlock = 0, heightOfRenderBlock = 0, heightBelowRenderBlock = 0,
      itemsAboveRenderBlock = 0, itemsInRenderBlock = 0, itemsBelowRenderBlock = 0,
      pendingMeasurements = {}, isInitialFillComplete = False, heightCache = Map.empty,
      nextCellKey = 1, activeCells = Map.empty, recycledCells = [],
      navigatableItemsRendered = [], pendingFocusDirection = None, maxRecycledCells = 50,
      isScreenReaderEnabled = False, renderOverdrawFactor = 1 / 2, minOverdrawAmount = 512,
      maxOverdrawAmount = 4096, cullFraction = 1, minCullAmount = 512 * 2,
      forceUpdateCalls = 0, deferredCalls = 0, onScrollCalls = []\<rparr>"

subsection \<open>Helpers of the language and of lodash\<close>

text \<open>
  Modelled from the spec: the helper \<^verbatim>\<open>assert\<close> of \<^verbatim>\<open>./assert\<close> is not among the
  sources. The specification calls its failure a hard assertion failure that is not
  recoverable, so a false condition throws.
\<close>

definition assert :: "bool \<Rightarrow> string \<Rightarrow> error + unit" where
  "assert cond message = (if cond then Inr () else Inl (AssertionFailed message))"

text \<open>Truthiness of a value of type \<^verbatim>\<open>string | undefined\<close>.\<close>

definition truthy :: "string option \<Rightarrow> bool" where
  "truthy t = (case t of None \<Rightarrow> False | Some str \<Rightarrow> str \<noteq> [])"

text \<open>\<^verbatim>\<open>_.findIndex\<close>; \<open>None\<close> stands for the result \<^verbatim>\<open>-1\<close>.\<close>

fun findIndex :: "'a list \<Rightarrow> ('a \<Rightarrow> bool) \<Rightarrow> nat option" where
  "findIndex [] p = None"
| "findIndex (x # xs) p = (if p x then Some 0 else map_option Suc (findIndex xs p))"

text \<open>\<^verbatim>\<open>xs.splice(i, 1)\<close>, as used by the source: the list without its element \<open>i\<close>.\<close>

definition splice1 :: "'a list \<Rightarrow> nat \<Rightarrow> 'a list" where
  "splice1 xs i = take i xs @ drop (Suc i) xs"

text \<open>
  The string that the operator \<^verbatim>\<open>+\<close> makes of a number that holds a natural number:
  its decimal digits.
\<close>

function numberToString :: "nat \<Rightarrow> string" where
  "numberToString n =
     (if n < 10 then [''0123456789'' ! n]
      else numberToString (n div 10) @ [''0123456789'' ! (n mod 10)])"
  by pat_completeness auto
termination
  by (relation "measure id") auto

declare numberToString.simps [simp del]

text \<open>\<^verbatim>\<open>list[i]\<close> for a number \<open>i\<close> that holds an integer.\<close>

definition itemAt :: "'a list \<Rightarrow> int \<Rightarrow> 'a option" where
  "itemAt xs i = (if 0 \<le> i \<and> i < int (length xs) then Some (xs ! nat i) else None)"

subsection \<open>Cell management\<close>

text \<open>
  \<^verbatim>\<open>_setCellTopAndVisibility\<close>. Its last parameter,
  \<^verbatim>\<open>animateIfPreviouslyVisible\<close>, only chooses how the mounted cell moves and is dropped.
\<close>

definition setCellTopAndVisibility :: "listView \<Rightarrow> string \<Rightarrow> bool \<Rightarrow> rat \<Rightarrow> error + listView" where
  "setCellTopAndVisibility s itemKey isVisibile top' =
     (case activeCells s itemKey of
        None \<Rightarrow> (case assert False ''Missing cell'' of Inl e \<Rightarrow> Inl e | Inr u \<Rightarrow> Inr s)
      | Some cellInfo \<Rightarrow>
          Inr (s\<lparr>activeCells := (activeCells s)(itemKey \<mapsto>
                 cellInfo\<lparr>isVisible := isVisibile, top_cell := top'\<rparr>)\<rparr>))"

definition isCellVisible :: "listView \<Rightarrow> string \<Rightarrow> bool" where
  "isCellVisible s itemKey =
     (case activeCells s itemKey of None \<Rightarrow> False | Some cellInfo \<Rightarrow> isVisible cellInfo)"

text \<open>
  The search of \<^verbatim>\<open>_allocateCell\<close> among the recycled cells: the index of the first
  exact match, else of the first cell with the template.
\<close>

definition bestOptionIndex :: "cell list \<Rightarrow> string \<Rightarrow> string option \<Rightarrow> rat \<Rightarrow> nat option" where
  "bestOptionIndex rc itemKey itemTemplate' height' =
     (case findIndex rc (\<lambda>c. itemTemplate c = itemTemplate' \<and> cachedItemKey c = itemKey
                              \<and> height_cell c = height') of
        Some i \<Rightarrow> Some i
      | None \<Rightarrow> findIndex rc (\<lambda>c. itemTemplate c = itemTemplate'))"

text \<open>
  \<^verbatim>\<open>_allocateCell\<close>. The first component of \<open>found\<close> is \<^verbatim>\<open>newCell\<close> before the
  test \<^verbatim>\<open>if (newCell)\<close>, the second the recycled list after the splice. The source
  returns the cell; no caller reads it.
\<close>

definition allocateCell ::
  "listView \<Rightarrow> string \<Rightarrow> string option \<Rightarrow> nat \<Rightarrow> bool \<Rightarrow> rat \<Rightarrow> rat \<Rightarrow> bool \<Rightarrow> error + listView" where
  "allocateCell s itemKey itemTemplate' itemIndex isHeightConstant' height' top' isVisible' =
     (let rc = recycledCells s;
          found =
            (case activeCells s itemKey of
               Some c \<Rightarrow> (Some c, rc)
             | None \<Rightarrow>
                 if truthy itemTemplate' \<and> isHeightConstant' then
                   (case bestOptionIndex rc itemKey itemTemplate' height' of
                      Some i \<Rightarrow> (Some (rc ! i), splice1 rc i)
                    | None \<Rightarrow> (None, rc))
                 else (None, rc))
      in case found of
           (Some c, rc') \<Rightarrow>
             (case assert (isHeightConstant c = isHeightConstant')
                     ''isHeightConstant assumed to not change'' of
                Inl e \<Rightarrow> Inl e
              | Inr u \<Rightarrow>
                  (case assert (itemTemplate c = itemTemplate')
                          ''itemTemplate assumed to not change'' of
                     Inl e \<Rightarrow> Inl e
                   | Inr u \<Rightarrow>
                       Inr (s\<lparr>recycledCells := rc', isRenderDirty := True,
                              activeCells := (activeCells s)(itemKey \<mapsto>
                                c\<lparr>isVisible := isVisible', top_cell := top',
                                  shouldUpdate := True\<rparr>)\<rparr>)))
         | (None, rc') \<Rightarrow>
             Inr (s\<lparr>recycledCells := rc', nextCellKey := nextCellKey s + 1, isRenderDirty := True,
                    activeCells := (activeCells s)(itemKey \<mapsto>
                      \<lparr>virtualKey = nextCellKey s, itemTemplate = itemTemplate',
                       isHeightConstant = isHeightConstant', height_cell = height',
                       cachedItemKey = itemKey, top_cell = top', isVisible = isVisible',
                       shouldUpdate = True\<rparr>)\<rparr>))"

text \<open>
  \<^verbatim>\<open>_recycleCell\<close>. \<^verbatim>\<open>virtualCellInfo\<close> is the object that the map holds, so the
  cell pushed on the recycled list is the one that \<^verbatim>\<open>_setCellTopAndVisibility\<close> has
  just hidden; the embedding reads it back from the map.
\<close>

definition recycleCell :: "listView \<Rightarrow> string \<Rightarrow> error + listView" where
  "recycleCell s itemKey =
     (case activeCells s itemKey of
        None \<Rightarrow> Inr s
      | Some virtualCellInfo \<Rightarrow>
          (case (if 0 < maxRecycledCells s then
                   (case setCellTopAndVisibility s itemKey False (top_cell virtualCellInfo) of
                      Inl e \<Rightarrow> Inl e
                    | Inr s1 \<Rightarrow>
                        (case activeCells s1 itemKey of
                           None \<Rightarrow> Inr s1
                         | Some c \<Rightarrow>
                             if truthy (itemTemplate c) \<and> isHeightConstant c then
                               (let s2 = s1\<lparr>recycledCells := recycledCells s1 @ [c]\<rparr>
                                in if maxRecycledCells s2 < length (recycledCells s2) then
                                     Inr (s2\<lparr>recycledCells := splice1 (recycledCells s2) 0,
                                             isRenderDirty := True\<rparr>)
                                   else Inr s2)
                             else Inr (s1\<lparr>isRenderDirty := True\<rparr>)))
                 else Inr s) of
             Inl e \<Rightarrow> Inl e
           | Inr s3 \<Rightarrow> Inr (s3\<lparr>activeCells := (activeCells s3)(itemKey := None)\<rparr>)))"

text \<open>
  The three methods above write the cell containers, the dirty flag and the key counter,
  and nothing else. The loops below terminate because of that.
\<close>

lemma setCellTopAndVisibility_frame:
  "setCellTopAndVisibility s k v t = Inr s' \<Longrightarrow> s' = s\<lparr>activeCells := activeCells s'\<rparr>"
  by (auto simp: setCellTopAndVisibility_def assert_def split: option.splits)

lemma recycleCell_frame:
  "recycleCell s k = Inr s' \<Longrightarrow>
     s' = s\<lparr>activeCells := activeCells s', recycledCells := recycledCells s',
            isRenderDirty := isRenderDirty s'\<rparr>"
  by (auto simp: recycleCell_def setCellTopAndVisibility_def assert_def Let_def
           split: option.splits if_splits)

lemma allocateCell_frame:
  "allocateCell s k t i c h y v = Inr s' \<Longrightarrow>
     s' = s\<lparr>activeCells := activeCells s', recycledCells := recycledCells s',
            isRenderDirty := isRenderDirty s', nextCellKey := nextCellKey s'\<rparr>"
  by (auto simp: allocateCell_def assert_def Let_def split: option.splits if_splits prod.splits)

lemma setCellTopAndVisibility_counters:
  assumes "setCellTopAndVisibility s k v t = Inr s'"
  shows "itemsInRenderBlock s' = itemsInRenderBlock s \<and>
         itemsAboveRenderBlock s' = itemsAboveRenderBlock s \<and>
         itemsBelowRenderBlock s' = itemsBelowRenderBlock s"
  using arg_cong[OF setCellTopAndVisibility_frame[OF assms], of itemsInRenderBlock]
        arg_cong[OF setCellTopAndVisibility_frame[OF assms], of itemsAboveRenderBlock]
        arg_cong[OF setCellTopAndVisibility_frame[OF assms], of itemsBelowRenderBlock]
  by simp

lemma recycleCell_counters:
  assumes "recycleCell s k = Inr s'"
  shows "itemsInRenderBlock s' = itemsInRenderBlock s \<and>
         itemsAboveRenderBlock s' = itemsAboveRenderBlock s \<and>
         itemsBelowRenderBlock s' = itemsBelowRenderBlock s"
  using arg_cong[OF recycleCell_frame[OF assms], of itemsInRenderBlock]
        arg_cong[OF recycleCell_frame[OF assms], of itemsAboveRenderBlock]
        arg_cong[OF recycleCell_frame[OF assms], of itemsBelowRenderBlock]
  by simp

lemma allocateCell_counters:
  assumes "allocateCell s k t i c h y v = Inr s'"
  shows "itemsInRenderBlock s' = itemsInRenderBlock s \<and>
         itemsAboveRenderBlock s' = itemsAboveRenderBlock s \<and>
         itemsBelowRenderBlock s' = itemsBelowRenderBlock s"
  using arg_cong[OF allocateCell_frame[OF assms], of itemsInRenderBlock]
        arg_cong[OF allocateCell_frame[OF assms], of itemsAboveRenderBlock]
        arg_cong[OF allocateCell_frame[OF assms], of itemsBelowRenderBlock]
  by simp

subsection \<open>Item extents\<close>

definition isItemHeightKnown :: "listView \<Rightarrow> item \<Rightarrow> bool" where
  "isItemHeightKnown s item' = (\<not> measureHeight item' \<or> heightCache s (key item') \<noteq> None)"

definition getHeightOfItem :: "listView \<Rightarrow> item option \<Rightarrow> rat" where
  "getHeightOfItem s item' =
     (case item' of
        None \<Rightarrow> 0
      | Some it \<Rightarrow>
          if \<not> measureHeight it then height it
          else (case heightCache s (key it) of
                  Some cachedHeight \<Rightarrow> cachedHeight
                | None \<Rightarrow> height it))"

definition calcHeightOfItems :: "listView \<Rightarrow> props \<Rightarrow> int \<Rightarrow> int \<Rightarrow> rat" where
  "calcHeightOfItems s p startIndex endIndex =
     sum_list (map (\<lambda>i. getHeightOfItem s (itemAt (itemList p) i)) [startIndex..endIndex])"

text \<open>\<^verbatim>\<open>_shouldShowItem(item, props)\<close>; the method does not read \<^verbatim>\<open>props\<close>.\<close>

definition shouldShowItem :: "listView \<Rightarrow> item \<Rightarrow> bool" where
  "shouldShowItem s item' =
     (let isMeasuring = \<not> isItemHeightKnown s item';
          shouldHide = (isMeasuring \<or> \<not> isInitialFillComplete s)
      in \<not> shouldHide)"

definition calcOverdrawAmount :: "listView \<Rightarrow> rat" where
  "calcOverdrawAmount s =
     (if isInitialFillComplete s then
        min (max (layoutHeight s * renderOverdrawFactor s) (minOverdrawAmount s))
            (maxOverdrawAmount s)
      else 0)"


subsection \<open>Keyboard focus\<close>

definition directionValue :: "FocusDirection \<Rightarrow> int" where
  "directionValue direction = (case direction of Up \<Rightarrow> - 1 | Down \<Rightarrow> 1)"

text \<open>
  \<^verbatim>\<open>_focusSubsequentItem(direction, viaKeyboard, retry)\<close> for
  \<^verbatim>\<open>viaKeyboard = false\<close> and \<^verbatim>\<open>retry = false\<close>, the arguments of every call made
  by the methods embedded here. With these arguments the method writes no field: it asks
  the adjacent rendered navigable cell, if there is one, to take the focus, and returns
  whether there is one.
\<close>

definition focusSubsequentItem :: "listView \<Rightarrow> FocusDirection \<Rightarrow> bool" where
  "focusSubsequentItem s direction =
     (case findIndex (navigatableItemsRendered s) (\<lambda>it. Some (fst it) = lastFocusedItemKey s) of
        None \<Rightarrow> False
      | Some index \<Rightarrow>
          - 1 < int index + directionValue direction \<and>
          int index + directionValue direction < int (length (navigatableItemsRendered s)))"

definition setFocusIfNeeded :: "listView \<Rightarrow> listView" where
  "setFocusIfNeeded s =
     (case pendingFocusDirection s of
        None \<Rightarrow> s
      | Some direction \<Rightarrow>
          (let found = focusSubsequentItem s direction
           in s\<lparr>pendingFocusDirection := None\<rparr>))"

subsection \<open>A change of the item list\<close>

text \<open>
  The first loop of \<^verbatim>\<open>_handleItemListChange\<close>: it builds the new item map, asserts
  that no key occurs twice, and marks the active cells of the listed items for update.
  \<open>itemIndex\<close> is the index of the head of the remaining list.
\<close>

fun buildNewItemMap ::
  "listView \<Rightarrow> item list \<Rightarrow> nat \<Rightarrow> (string \<rightharpoonup> nat) \<Rightarrow> error + (listView \<times> (string \<rightharpoonup> nat))" where
  "buildNewItemMap s [] itemIndex newItemMap = Inr (s, newItemMap)"
| "buildNewItemMap s (it # rest) itemIndex newItemMap =
     (case (if newItemMap (key it) \<noteq> None
            then assert False (''Found a duplicate key: '' @ key it) else Inr ()) of
        Inl e \<Rightarrow> Inl e
      | Inr u \<Rightarrow>
          buildNewItemMap
            (case activeCells s (key it) of
               None \<Rightarrow> s
             | Some c \<Rightarrow>
                 (case itemMap s (key it) of
                    None \<Rightarrow>
                      s\<lparr>activeCells := (activeCells s)(key it \<mapsto> c\<lparr>shouldUpdate := True\<rparr>)\<rparr>
                  | Some oldItemIndex \<Rightarrow>
                      if skipRenderIfItemUnchanged (props s) \<or>
                         itemAt (itemList (props s)) (int oldItemIndex) \<noteq> Some it
                      then s\<lparr>activeCells := (activeCells s)(key it \<mapsto> c\<lparr>shouldUpdate := True\<rparr>)\<rparr>
                      else s))
            rest (itemIndex + 1) (newItemMap(key it \<mapsto> itemIndex)))"

text \<open>
  The second loop, over the old items: an item that the new list no longer has loses its
  focus, its cached height, its pending measurement and its cell. The call
  \<^verbatim>\<open>setState({ lastFocusedItemKey: undefined })\<close> is applied at once.
\<close>

fun forgetDeletedItems ::
  "listView \<Rightarrow> (string \<rightharpoonup> nat) \<Rightarrow> item list \<Rightarrow> nat \<Rightarrow> error + listView" where
  "forgetDeletedItems s newItemMap [] itemIndex = Inr s"
| "forgetDeletedItems s newItemMap (it # rest) itemIndex =
     (if newItemMap (key it) = None then
        (let s1 = (if Some (key it) = lastFocusedItemKey s then
                     (if \<not> focusSubsequentItem s Down \<and> \<not> focusSubsequentItem s Up
                      then s\<lparr>lastFocusedItemKey := None\<rparr> else s)
                   else s);
             s2 = (if int itemIndex < itemsAboveRenderBlock s1 then
                     s1\<lparr>heightAboveRenderAdjustment :=
                          heightAboveRenderAdjustment s1 + getHeightOfItem s1 (Some it)\<rparr>
                   else s1);
             s3 = s2\<lparr>heightCache := (heightCache s2)(key it := None),
                     pendingMeasurements := pendingMeasurements s2 - {key it}\<rparr>
         in case (if activeCells s3 (key it) \<noteq> None then recycleCell s3 (key it) else Inr s3) of
              Inl e \<Rightarrow> Inl e
            | Inr s4 \<Rightarrow> forgetDeletedItems s4 newItemMap rest (itemIndex + 1))
      else forgetDeletedItems s newItemMap rest (itemIndex + 1))"

text \<open>
  The third loop, over the new items: it finds the bounds of the render block and gives
  a cell to every item inside. \<open>yPosition0\<close> is \<^verbatim>\<open>yPosition\<close> before the head of the
  remaining list, \<open>looking\<close> is \<^verbatim>\<open>lookingForStartOfRenderBlock\<close>.
\<close>

fun placeItems ::
  "listView \<Rightarrow> rat \<Rightarrow> rat \<Rightarrow> item list \<Rightarrow> nat \<Rightarrow> rat \<Rightarrow> bool \<Rightarrow> error + listView" where
  "placeItems s renderBlockTopLimit renderBlockBottomLimit [] itemIndex yPosition0 looking = Inr s"
| "placeItems s renderBlockTopLimit renderBlockBottomLimit (it # rest) itemIndex yPosition0 looking =
     (let itemHeight = getHeightOfItem s (Some it);
          yPosition = yPosition0 + itemHeight
      in if yPosition \<le> renderBlockTopLimit then
           (case (if activeCells s (key it) \<noteq> None then recycleCell s (key it) else Inr s) of
              Inl e \<Rightarrow> Inl e
            | Inr s' \<Rightarrow>
                placeItems s' renderBlockTopLimit renderBlockBottomLimit rest (itemIndex + 1)
                  yPosition looking)
         else
           (let s1 = (if looking then s\<lparr>itemsAboveRenderBlock := int itemIndex\<rparr> else s)
            in case (if yPosition - itemHeight < renderBlockBottomLimit then
                       (let s2 = s1\<lparr>itemsInRenderBlock := itemsInRenderBlock s1 + 1\<rparr>
                        in if activeCells s2 (key it) \<noteq> None then
                             setCellTopAndVisibility s2 (key it) (shouldShowItem s2 it)
                               (yPosition - itemHeight)
                           else
                             (case allocateCell s2 (key it) (template it) itemIndex
                                     (\<not> measureHeight it) (height it) (yPosition - itemHeight)
                                     (shouldShowItem s2 it) of
                                Inl e \<Rightarrow> Inl e
                              | Inr s3 \<Rightarrow>
                                  Inr (if \<not> isItemHeightKnown s3 it then
                                         s3\<lparr>pendingMeasurements :=
                                              insert (key it) (pendingMeasurements s3)\<rparr>
                                       else s3)))
                     else (if activeCells s1 (key it) \<noteq> None then recycleCell s1 (key it)
                           else Inr s1)) of
                 Inl e \<Rightarrow> Inl e
               | Inr s' \<Rightarrow>
                   placeItems s' renderBlockTopLimit renderBlockBottomLimit rest (itemIndex + 1)
                     yPosition False))"

text \<open>
  \<^verbatim>\<open>_handleItemListChange(props)\<close>. \<open>props s\<close> is \<^verbatim>\<open>this.props\<close>, the properties
  before the change; \<open>p\<close> is the argument. In the constructor the two are the same.
\<close>

definition handleItemListChange :: "listView \<Rightarrow> props \<Rightarrow> error + listView" where
  "handleItemListChange s p =
     (case buildNewItemMap s (itemList p) 0 Map.empty of
        Inl e \<Rightarrow> Inl e
      | Inr (s1, newItemMap) \<Rightarrow>
          (case forgetDeletedItems s1 newItemMap (itemList (props s1)) 0 of
             Inl e \<Rightarrow> Inl e
           | Inr s2 \<Rightarrow>
               (let overdrawAmount = calcOverdrawAmount s2;
                    renderBlockTopLimit = lastScrollTop s2 - overdrawAmount;
                    renderBlockBottomLimit = lastScrollTop s2 + layoutHeight s2 + overdrawAmount;
                    yPosition = heightAboveRenderAdjustment s2
                in case placeItems (s2\<lparr>itemsAboveRenderBlock := 0, itemsInRenderBlock := 0\<rparr>)
                          renderBlockTopLimit renderBlockBottomLimit (itemList p) 0 yPosition True of
                     Inl e \<Rightarrow> Inl e
                   | Inr s3 \<Rightarrow>
                       (let s4 = s3\<lparr>itemMap := newItemMap\<rparr>;
                            s5 = s4\<lparr>itemsBelowRenderBlock :=
                                      int (length (itemList p)) - itemsAboveRenderBlock s4
                                        - itemsInRenderBlock s4\<rparr>;
                            s6 = s5\<lparr>heightAboveRenderBlock :=
                                      calcHeightOfItems s5 p 0 (itemsAboveRenderBlock s5 - 1)\<rparr>;
                            s7 = s6\<lparr>heightOfRenderBlock :=
                                      calcHeightOfItems s6 p (itemsAboveRenderBlock s6)
                                        (itemsAboveRenderBlock s6 + itemsInRenderBlock s6 - 1)\<rparr>;
                            s8 = s7\<lparr>heightBelowRenderBlock :=
                                      calcHeightOfItems s7 p
                                        (itemsAboveRenderBlock s7 + itemsInRenderBlock s7)
                                        (int (length (itemList p)) - 1)\<rparr>
                        in Inr (if containerHeight s8 = 0 then
                                  s8\<lparr>containerHeight := heightAboveRenderBlock s8
                                        + heightOfRenderBlock s8 + heightBelowRenderBlock s8\<rparr>
                                else s8)))))"

subsection \<open>Recomputing the render block\<close>

text \<open>
  \<^verbatim>\<open>_componentDidRender\<close>: it clears the dirty flag and defers the settle pass, which
  is \<open>settle\<close> below.
\<close>

definition componentDidRender :: "listView \<Rightarrow> listView" where
  "componentDidRender s = s\<lparr>isRenderDirty := False, deferredCalls := deferredCalls s + 1\<rparr>"

text \<open>The loop of \<^verbatim>\<open>_popInvisibleIntoView\<close>, over \<^verbatim>\<open>i = 0, ..., itemsInRenderBlock - 1\<close>.\<close>

fun popLoop :: "listView \<Rightarrow> props \<Rightarrow> int list \<Rightarrow> error + listView" where
  "popLoop s p [] = Inr s"
| "popLoop s p (i # rest) =
     (case itemAt (itemList p) (itemsAboveRenderBlock s + i) of
        None \<Rightarrow> Inl (TypeError ''item is undefined'')
      | Some it \<Rightarrow>
          (case activeCells s (key it) of
             None \<Rightarrow> Inl (TypeError ''cellInfo is undefined'')
           | Some cellInfo \<Rightarrow>
               (case setCellTopAndVisibility s (key it) (shouldShowItem s it)
                       (top_cell cellInfo) of
                  Inl e \<Rightarrow> Inl e
                | Inr s' \<Rightarrow> popLoop s' p rest)))"

definition popInvisibleIntoView :: "listView \<Rightarrow> props \<Rightarrow> error + listView" where
  "popInvisibleIntoView s p =
     popLoop (s\<lparr>isInitialFillComplete := True\<rparr>) p [0..itemsInRenderBlock s - 1]"

text \<open>The first loop of \<^verbatim>\<open>_calcNewRenderedItemState\<close>: culling at the top.\<close>

function cullTop :: "listView \<Rightarrow> props \<Rightarrow> rat \<Rightarrow> error + listView" where
  "cullTop s p topCullLine =
     (if 0 < itemsInRenderBlock s then
        (case itemAt (itemList p) (itemsAboveRenderBlock s) of
           None \<Rightarrow> Inl (TypeError ''item is undefined'')
         | Some it \<Rightarrow>
             if \<not> isItemHeightKnown s it then Inr s
             else
               (let itemHeight = getHeightOfItem s (Some it)
                in if topCullLine \<le> heightAboveRenderAdjustment s + heightAboveRenderBlock s
                                       + itemHeight
                   then Inr s
                   else
                     (case recycleCell
                             (s\<lparr>itemsInRenderBlock := itemsInRenderBlock s - 1,
                                heightOfRenderBlock := heightOfRenderBlock s - itemHeight,
                                itemsAboveRenderBlock := itemsAboveRenderBlock s + 1,
                                heightAboveRenderBlock := heightAboveRenderBlock s + itemHeight\<rparr>)
                             (key it) of
                        Inl e \<Rightarrow> Inl e
                      | Inr s' \<Rightarrow> cullTop s' p topCullLine)))
      else Inr s)"
  by pat_completeness auto
termination
  by (relation "measure (\<lambda>(s, p, l). nat (itemsInRenderBlock s))")
     (auto dest!: recycleCell_counters)

text \<open>The second loop: culling at the bottom.\<close>

function cullBottom :: "listView \<Rightarrow> props \<Rightarrow> rat \<Rightarrow> error + listView" where
  "cullBottom s p bottomCullLine =
     (if 0 < itemsInRenderBlock s then
        (case itemAt (itemList p) (itemsAboveRenderBlock s + itemsInRenderBlock s - 1) of
           None \<Rightarrow> Inl (TypeError ''item is undefined'')
         | Some it \<Rightarrow>
             if \<not> isItemHeightKnown s it then Inr s
             else
               (let itemHeight = getHeightOfItem s (Some it)
                in if heightAboveRenderAdjustment s + heightAboveRenderBlock s
                        + heightOfRenderBlock s - itemHeight \<le> bottomCullLine
                   then Inr s
                   else
                     (case recycleCell
                             (s\<lparr>itemsInRenderBlock := itemsInRenderBlock s - 1,
                                heightOfRenderBlock := heightOfRenderBlock s - itemHeight,
                                itemsBelowRenderBlock := itemsBelowRenderBlock s + 1,
                                heightBelowRenderBlock := heightBelowRenderBlock s + itemHeight\<rparr>)
                             (key it) of
                        Inl e \<Rightarrow> Inl e
                      | Inr s' \<Rightarrow> cullBottom s' p bottomCullLine)))
      else Inr s)"
  by pat_completeness auto
termination
  by (relation "measure (\<lambda>(s, p, l). nat (itemsInRenderBlock s))")
     (auto dest!: recycleCell_counters)

text \<open>
  The search for the first item of an empty render block (the \<^verbatim>\<open>for\<close> loop under
  \<^verbatim>\<open>if (this._itemsInRenderBlock === 0)\<close>); \<open>i\<close> is the index of the head of the
  remaining list.
\<close>

fun findFirstItem :: "listView \<Rightarrow> rat \<Rightarrow> item list \<Rightarrow> nat \<Rightarrow> rat \<Rightarrow> error + listView" where
  "findFirstItem s renderBlockTopLimit [] i yPosition0 = Inr s"
| "findFirstItem s renderBlockTopLimit (it # rest) i yPosition0 =
     (let itemHeight = getHeightOfItem s (Some it);
          yPosition = yPosition0 + itemHeight
      in if renderBlockTopLimit < yPosition then
           (let s1 = s\<lparr>itemsAboveRenderBlock := int i, itemsInRenderBlock := 1\<rparr>
            in case allocateCell s1 (key it) (template it) i (\<not> measureHeight it) (height it)
                      (yPosition - itemHeight) (shouldShowItem s1 it) of
                 Inl e \<Rightarrow> Inl e
               | Inr s2 \<Rightarrow>
                   Inr (if \<not> isItemHeightKnown s2 it then
                          s2\<lparr>pendingMeasurements := insert (key it) (pendingMeasurements s2)\<rparr>
                        else s2))
         else findFirstItem s renderBlockTopLimit rest (i + 1) yPosition)"

definition startRenderBlock :: "listView \<Rightarrow> props \<Rightarrow> rat \<Rightarrow> error + listView" where
  "startRenderBlock s p renderBlockTopLimit =
     (case findFirstItem (s\<lparr>itemsAboveRenderBlock := 0\<rparr>) renderBlockTopLimit (itemList p) 0
             (heightAboveRenderAdjustment s) of
        Inl e \<Rightarrow> Inl e
      | Inr s1 \<Rightarrow>
          (let s2 = s1\<lparr>itemsBelowRenderBlock :=
                        int (length (itemList p)) - itemsAboveRenderBlock s1
                          - itemsInRenderBlock s1\<rparr>;
               s3 = s2\<lparr>heightAboveRenderBlock :=
                        calcHeightOfItems s2 p 0 (itemsAboveRenderBlock s2 - 1)\<rparr>;
               s4 = s3\<lparr>heightOfRenderBlock :=
                        calcHeightOfItems s3 p (itemsAboveRenderBlock s3)
                          (itemsAboveRenderBlock s3 + itemsInRenderBlock s3 - 1)\<rparr>
           in Inr (s4\<lparr>heightBelowRenderBlock :=
                        calcHeightOfItems s4 p (itemsAboveRenderBlock s4 + itemsInRenderBlock s4)
                          (int (length (itemList p)) - 1)\<rparr>)))"

text \<open>
  The loop that positions the cells of the render block, over
  \<^verbatim>\<open>i = 0, ..., itemsInRenderBlock - 1\<close>; it returns \<^verbatim>\<open>yPosition\<close> too.
\<close>

fun positionCells :: "listView \<Rightarrow> props \<Rightarrow> int list \<Rightarrow> rat \<Rightarrow> error + (listView \<times> rat)" where
  "positionCells s p [] yPosition = Inr (s, yPosition)"
| "positionCells s p (i # rest) yPosition =
     (case itemAt (itemList p) (itemsAboveRenderBlock s + i) of
        None \<Rightarrow> Inl (TypeError ''item is undefined'')
      | Some it \<Rightarrow>
          (case setCellTopAndVisibility s (key it) (shouldShowItem s it) yPosition of
             Inl e \<Rightarrow> Inl e
           | Inr s' \<Rightarrow> positionCells s' p rest (yPosition + getHeightOfItem s' (Some it))))"

text \<open>
  The closure \<^verbatim>\<open>buildItem(itemIndex, above)\<close>. The pair holds the two variables that
  the closure captures and writes, \<^verbatim>\<open>topOfRenderBlockY\<close> and
  \<^verbatim>\<open>bottomOfRenderBlockY\<close>.
\<close>

definition buildItem ::
  "listView \<Rightarrow> props \<Rightarrow> int \<Rightarrow> bool \<Rightarrow> rat \<times> rat \<Rightarrow> error + (listView \<times> rat \<times> rat)" where
  "buildItem s p itemIndex above' ys =
     (case itemAt (itemList p) itemIndex of
        None \<Rightarrow> Inl (TypeError ''item is undefined'')
      | Some it \<Rightarrow>
          (let isHeightKnown = isItemHeightKnown s it;
               itemHeight = getHeightOfItem s (Some it)
           in case assert (0 < itemHeight) ''list items should always have non-zero height'' of
                Inl e \<Rightarrow> Inl e
              | Inr u \<Rightarrow>
                  (let s1 = s\<lparr>itemsInRenderBlock := itemsInRenderBlock s + 1,
                              heightOfRenderBlock := heightOfRenderBlock s + itemHeight\<rparr>;
                       s2 = (if above' then
                               s1\<lparr>itemsAboveRenderBlock := itemsAboveRenderBlock s1 - 1,
                                  heightAboveRenderBlock := heightAboveRenderBlock s1 - itemHeight\<rparr>
                             else
                               s1\<lparr>itemsBelowRenderBlock := itemsBelowRenderBlock s1 - 1,
                                  heightBelowRenderBlock := heightBelowRenderBlock s1 - itemHeight\<rparr>);
                       yPlacement = (if above' then fst ys - itemHeight else snd ys);
                       ys' = (if above' then (fst ys - itemHeight, snd ys)
                              else (fst ys, snd ys + itemHeight));
                       s3 = (if \<not> isHeightKnown then
                               s2\<lparr>pendingMeasurements := insert (key it) (pendingMeasurements s2)\<rparr>
                             else s2)
                   in case allocateCell s3 (key it) (template it) (nat itemIndex)
                             (\<not> measureHeight it) (height it) yPlacement (shouldShowItem s3 it) of
                        Inl e \<Rightarrow> Inl e
                      | Inr s4 \<Rightarrow> Inr (s4, ys'))))"

lemma buildItem_counters:
  assumes "buildItem s p i a ys = Inr r"
  shows "itemsInRenderBlock (fst r) = itemsInRenderBlock s + 1 \<and>
         itemsAboveRenderBlock (fst r) =
           (if a then itemsAboveRenderBlock s - 1 else itemsAboveRenderBlock s) \<and>
         itemsBelowRenderBlock (fst r) =
           (if a then itemsBelowRenderBlock s else itemsBelowRenderBlock s - 1)"
  using assms
  by (auto simp: buildItem_def Let_def split: option.splits sum.splits if_splits
           dest!: allocateCell_counters)

text \<open>
  The two loops that grow the render block, at the bottom and then at the top, while
  fewer than \<^verbatim>\<open>_maxSimultaneousMeasures\<close> measurements are pending.
\<close>

definition maxSimultaneousMeasures :: nat where
  "maxSimultaneousMeasures = 16"

function growBottom ::
  "listView \<Rightarrow> props \<Rightarrow> rat \<Rightarrow> rat \<times> rat \<Rightarrow> error + (listView \<times> rat \<times> rat)" where
  "growBottom s p renderBlockBottomLimit ys =
     (if card (pendingMeasurements s) < maxSimultaneousMeasures then
        (if itemsBelowRenderBlock s \<le> 0 \<or>
            renderBlockBottomLimit \<le> heightAboveRenderAdjustment s + heightAboveRenderBlock s
                                        + heightOfRenderBlock s
         then Inr (s, ys)
         else
           (case buildItem s p (itemsAboveRenderBlock s + itemsInRenderBlock s) False ys of
              Inl e \<Rightarrow> Inl e
            | Inr r \<Rightarrow> growBottom (fst r) p renderBlockBottomLimit (snd r)))
      else Inr (s, ys))"
  by pat_completeness auto
termination
  by (relation "measure (\<lambda>(s, p, l, ys). nat (itemsBelowRenderBlock s))")
     (auto dest!: buildItem_counters)

function growTop ::
  "listView \<Rightarrow> props \<Rightarrow> rat \<Rightarrow> rat \<times> rat \<Rightarrow> error + (listView \<times> rat \<times> rat)" where
  "growTop s p renderBlockTopLimit ys =
     (if card (pendingMeasurements s) < maxSimultaneousMeasures then
        (if itemsAboveRenderBlock s \<le> 0 \<or>
            heightAboveRenderAdjustment s + heightAboveRenderBlock s \<le> renderBlockTopLimit
         then Inr (s, ys)
         else
           (case buildItem s p (itemsAboveRenderBlock s - 1) True ys of
              Inl e \<Rightarrow> Inl e
            | Inr r \<Rightarrow> growTop (fst r) p renderBlockTopLimit (snd r)))
      else Inr (s, ys))"
  by pat_completeness auto
termination
  by (relation "measure (\<lambda>(s, p, l, ys). nat (itemsAboveRenderBlock s))")
     (auto dest!: buildItem_counters)

text \<open>\<^verbatim>\<open>_calcNewRenderedItemState(props)\<close>.\<close>

definition calcNewRenderedItemState :: "listView \<Rightarrow> props \<Rightarrow> error + listView" where
  "calcNewRenderedItemState s p =
     (if layoutHeight s = 0 then Inr s
      else if length (itemList p) = 0 then Inr s
      else if 0 < card (pendingMeasurements s) then Inr s
      else
        (let cullMargin = max (layoutHeight s * cullFraction s) (minCullAmount s);
             topCullLine = lastScrollTop s - cullMargin;
             bottomCullLine = lastScrollTop s + layoutHeight s + cullMargin
         in case cullTop s p topCullLine of
              Inl e \<Rightarrow> Inl e
            | Inr s1 \<Rightarrow>
          (case cullBottom s1 p bottomCullLine of
              Inl e \<Rightarrow> Inl e
            | Inr s2 \<Rightarrow>
          (let overdrawAmount = calcOverdrawAmount s2;
               renderMargin = (if isInitialFillComplete s2 then overdrawAmount else 0);
               renderBlockTopLimit = lastScrollTop s2 - renderMargin;
               renderBlockBottomLimit = lastScrollTop s2 + layoutHeight s2 + renderMargin
           in case (if itemsInRenderBlock s2 = 0 then startRenderBlock s2 p renderBlockTopLimit
                    else Inr s2) of
              Inl e \<Rightarrow> Inl e
            | Inr s3 \<Rightarrow>
          (let itemBlockHeight = heightAboveRenderAdjustment s3 + heightAboveRenderBlock s3
                                   + heightOfRenderBlock s3 + heightBelowRenderBlock s3;
               containerHeight' = max itemBlockHeight (layoutHeight s3);
               yPosition = heightAboveRenderBlock s3 + heightAboveRenderAdjustment s3;
               topOfRenderBlockY = yPosition
           in case positionCells s3 p [0..itemsInRenderBlock s3 - 1] yPosition of
              Inl e \<Rightarrow> Inl e
            | Inr r4 \<Rightarrow>
          (let bottomOfRenderBlockY = snd r4;
               s5 = (if containerHeight' \<noteq> containerHeight (fst r4)
                     then (fst r4)\<lparr>containerHeight := containerHeight'\<rparr> else fst r4)
           in case growBottom s5 p renderBlockBottomLimit
                     (topOfRenderBlockY, bottomOfRenderBlockY) of
              Inl e \<Rightarrow> Inl e
            | Inr r6 \<Rightarrow>
          (case growTop (fst r6) p renderBlockTopLimit (snd r6) of
              Inl e \<Rightarrow> Inl e
            | Inr r7 \<Rightarrow>
          (let s7 = fst r7
           in if \<not> isInitialFillComplete s7 \<and> \<not> isRenderDirty s7
                 \<and> card (pendingMeasurements s7) = 0
              then (case popInvisibleIntoView s7 p of
                      Inl e \<Rightarrow> Inl e
                    | Inr s8 \<Rightarrow> Inr (componentDidRender s8))
              else Inr s7))))))))"

subsection \<open>Rendering and corrections\<close>

text \<open>
  \<^verbatim>\<open>_renderIfDirty\<close>; the call of \<^verbatim>\<open>forceUpdate\<close> is counted. The render pass
  that the framework runs in answer is \<open>render\<close> followed by \<open>componentDidRender\<close>.
\<close>

definition renderIfDirty :: "listView \<Rightarrow> listView" where
  "renderIfDirty s =
     (if isRenderDirty s then
        (if isMounted s then s\<lparr>forceUpdateCalls := forceUpdateCalls s + 1\<rparr> else s)
      else s)"

text \<open>
  The loop of \<^verbatim>\<open>_reconcileCorrections\<close> over the indices of the render block: it
  moves every cell up by the pending adjustment.
\<close>

fun shiftCells :: "listView \<Rightarrow> props \<Rightarrow> int list \<Rightarrow> error + listView" where
  "shiftCells s p [] = Inr s"
| "shiftCells s p (i # rest) =
     (case itemAt (itemList p) i of
        None \<Rightarrow> Inl (TypeError ''item is undefined'')
      | Some it \<Rightarrow>
          (case activeCells s (key it) of
             None \<Rightarrow> Inl (TypeError ''cell is undefined'')
           | Some c \<Rightarrow>
               (case setCellTopAndVisibility s (key it) (isVisible c)
                       (top_cell c - heightAboveRenderAdjustment s) of
                  Inl e \<Rightarrow> Inl e
                | Inr s' \<Rightarrow> shiftCells s' p rest)))"

definition reconcileCorrections :: "listView \<Rightarrow> props \<Rightarrow> error + listView" where
  "reconcileCorrections s p =
     (if 0 < card (pendingAnimations s) then Inr s
      else
        (let maxFakeSpaceOffset0 = (0 :: rat);
             maxFakeSpaceOffset =
               (if lastScrollTop s = 0 \<or> lastScrollTop s < heightAboveRenderAdjustment s
                then 0 else maxFakeSpaceOffset0)
         in if maxFakeSpaceOffset < \<bar>heightAboveRenderAdjustment s\<bar> then
              (let newContainerHeight = containerHeight s - heightAboveRenderAdjustment s;
                   s1 = s\<lparr>containerHeight := newContainerHeight\<rparr>
               in case shiftCells s1 p
                         [itemsAboveRenderBlock s1..
                          itemsAboveRenderBlock s1 + itemsInRenderBlock s1 - 1] of
                    Inl e \<Rightarrow> Inl e
                  | Inr s2 \<Rightarrow> Inr (s2\<lparr>heightAboveRenderAdjustment := 0\<rparr>))
            else Inr s))"

text \<open>
  The state effects of \<^verbatim>\<open>render\<close>: the list of rendered navigable items is rebuilt
  from the render block, and \<^verbatim>\<open>shouldUpdate\<close> is cleared in every cell of the
  render block and in every recycled cell. The loop counter \<open>i\<close> is never negative.
\<close>

fun renderBlockCells ::
  "listView \<Rightarrow> int list \<Rightarrow> error + (string list \<times> (string \<times> nat) list)" where
  "renderBlockCells s [] = Inr ([], [])"
| "renderBlockCells s (i # rest) =
     (case itemAt (itemList (props s)) (itemsAboveRenderBlock s + i) of
        None \<Rightarrow> Inl (TypeError ''item is undefined'')
      | Some it \<Rightarrow>
          (case assert (activeCells s (key it) \<noteq> None)
                  (''Active Cell not found for key '' @ key it @ '', index=''
                     @ numberToString (nat i)) of
             Inl e \<Rightarrow> Inl e
           | Inr u \<Rightarrow>
               (case activeCells s (key it) of
                  None \<Rightarrow> Inl (TypeError ''virtualCellInfo is undefined'')
                | Some c \<Rightarrow>
                    (case renderBlockCells s rest of
                       Inl e \<Rightarrow> Inl e
                     | Inr r \<Rightarrow>
                         Inr (key it # fst r,
                              (if isNavigable it then [(key it, virtualKey c)] else []) @ snd r)))))"

definition render :: "listView \<Rightarrow> error + listView" where
  "render s =
     (case renderBlockCells s [0..itemsInRenderBlock s - 1] of
        Inl e \<Rightarrow> Inl e
      | Inr r \<Rightarrow>
          Inr (s\<lparr>navigatableItemsRendered := snd r,
                 activeCells := (\<lambda>k. if k \<in> set (fst r)
                                      then map_option (\<lambda>c. c\<lparr>shouldUpdate := False\<rparr>)
                                             (activeCells s k)
                                      else activeCells s k),
                 recycledCells := map (\<lambda>c. c\<lparr>shouldUpdate := False\<rparr>) (recycledCells s)\<rparr>))"

subsection \<open>The entry points\<close>

text \<open>\<^verbatim>\<open>_onScroll\<close> of the vertical list.\<close>

definition onScroll :: "listView \<Rightarrow> rat \<Rightarrow> rat \<Rightarrow> error + listView" where
  "onScroll s scrollTop scrollLeft =
     (if lastScrollTop s = scrollTop then Inr s
      else
        (let s1 = s\<lparr>lastScrollTop := scrollTop\<rparr>
         in case calcNewRenderedItemState s1 (props s1) of
              Inl e \<Rightarrow> Inl e
            | Inr s2 \<Rightarrow>
                (let s3 = renderIfDirty s2
                 in case reconcileCorrections s3 (props s3) of
                      Inl e \<Rightarrow> Inl e
                    | Inr s4 \<Rightarrow>
                        Inr (if hasOnScroll (props s4) then
                               s4\<lparr>onScrollCalls := onScrollCalls s4 @ [(scrollTop, scrollLeft)]\<rparr>
                             else s4))))"

text \<open>
  \<^verbatim>\<open>_onScroll\<close> of the horizontal list. In the record of a horizontal list the fields
  of the primary axis hold the horizontal quantities: \<open>lastScrollTop\<close> is
  \<^verbatim>\<open>_lastScrollLeft\<close>, \<open>layoutHeight\<close> is \<^verbatim>\<open>_layoutWidth\<close>, and so on.
\<close>

definition onScrollHorizontal :: "listView \<Rightarrow> rat \<Rightarrow> rat \<Rightarrow> error + listView" where
  "onScrollHorizontal s scrollTop scrollLeft =
     (if lastScrollTop s = scrollLeft then Inr s
      else
        (let s1 = s\<lparr>lastScrollTop := scrollLeft\<rparr>
         in case calcNewRenderedItemState s1 (props s1) of
              Inl e \<Rightarrow> Inl e
            | Inr s2 \<Rightarrow>
                (let s3 = renderIfDirty s2
                 in case reconcileCorrections s3 (props s3) of
                      Inl e \<Rightarrow> Inl e
                    | Inr s4 \<Rightarrow>
                        Inr (if hasOnScroll (props s4) then
                               s4\<lparr>onScrollCalls := onScrollCalls s4 @ [(scrollTop, scrollLeft)]\<rparr>
                             else s4))))"

text \<open>
  The loop of \<^verbatim>\<open>_onLayoutItem\<close> that looks for a visible cell from the start of the
  render block up to the measured item.
\<close>

fun foundVisibleItemBefore :: "listView \<Rightarrow> int list \<Rightarrow> int \<Rightarrow> error + bool" where
  "foundVisibleItemBefore s [] itemIndex = Inr False"
| "foundVisibleItemBefore s (i # rest) itemIndex =
     (case itemAt (itemList (props s)) i of
        None \<Rightarrow> Inl (TypeError ''item is undefined'')
      | Some it \<Rightarrow>
          if isCellVisible s (key it) then Inr True
          else if i = itemIndex then Inr False
          else foundVisibleItemBefore s rest itemIndex)"

text \<open>
  \<^verbatim>\<open>_onLayoutItem\<close> in three parts. \<open>measuredInBlock\<close> is the middle of the method,
  from \<^verbatim>\<open>let needsRecalc = false\<close> to the assignment of \<^verbatim>\<open>needsRecalc\<close> after the
  measurement has been taken off the pending set; it returns \<^verbatim>\<open>needsRecalc\<close> too.
  \<open>afterMeasurement\<close> is the end of the method: the recomputation, if it is needed, the
  render request and the reconciliation. \<open>onLayoutItem\<close> is the whole method.
\<close>

definition measuredInBlock ::
  "listView \<Rightarrow> string \<Rightarrow> rat \<Rightarrow> nat \<Rightarrow> rat \<Rightarrow> error + (listView \<times> bool)" where
  "measuredInBlock s itemKey newHeight itemIndex oldHeight =
     (case (if oldHeight \<noteq> newHeight then
              (let s1 = s\<lparr>heightOfRenderBlock := heightOfRenderBlock s + (newHeight - oldHeight)\<rparr>
               in case (if isInitialFillComplete s1 then
                          (case foundVisibleItemBefore s1
                                  [itemsAboveRenderBlock s1..
                                   itemsAboveRenderBlock s1 + itemsInRenderBlock s1 - 1]
                                  (int itemIndex) of
                             Inl e \<Rightarrow> Inl e
                           | Inr found \<Rightarrow>
                               Inr (if \<not> found then
                                      s1\<lparr>heightAboveRenderAdjustment :=
                                           heightAboveRenderAdjustment s1 + (oldHeight - newHeight)\<rparr>
                                    else s1))
                        else Inr s1) of
                    Inl e \<Rightarrow> Inl e
                  | Inr s2 \<Rightarrow> Inr (s2, True))
            else Inr (s, False)) of
        Inl e \<Rightarrow> Inl e
      | Inr r \<Rightarrow>
          (let s3 = (fst r)\<lparr>pendingMeasurements := pendingMeasurements (fst r) - {itemKey}\<rparr>
           in Inr (s3, snd r \<or> card (pendingMeasurements s3) = 0)))"

definition afterMeasurement :: "listView \<Rightarrow> bool \<Rightarrow> error + listView" where
  "afterMeasurement s needsRecalc =
     (case (if needsRecalc then
              (case calcNewRenderedItemState s (props s) of
                 Inl e \<Rightarrow> Inl e
               | Inr s1 \<Rightarrow> Inr (renderIfDirty s1))
            else Inr s) of
        Inl e \<Rightarrow> Inl e
      | Inr s2 \<Rightarrow> reconcileCorrections s2 (props s2))"

definition onLayoutItem :: "listView \<Rightarrow> string \<Rightarrow> rat \<Rightarrow> error + listView" where
  "onLayoutItem s itemKey newHeight =
     (if \<not> isMounted s then Inr s
      else
        (case itemMap s itemKey of
           None \<Rightarrow> Inr s
         | Some itemIndex \<Rightarrow>
             (let item' = itemAt (itemList (props s)) (int itemIndex);
                  oldHeight = getHeightOfItem s item'
              in case item' of
                   None \<Rightarrow> Inl (TypeError ''item is undefined'')
                 | Some it \<Rightarrow>
                     if \<not> measureHeight it then Inr s
                     else
                       (let s1 = s\<lparr>heightCache := (heightCache s)(itemKey \<mapsto> newHeight)\<rparr>
                        in if int itemIndex < itemsAboveRenderBlock s1 \<or>
                              itemsAboveRenderBlock s1 + itemsInRenderBlock s1 \<le> int itemIndex
                           then Inr s1
                           else
                             (case measuredInBlock s1 itemKey newHeight itemIndex oldHeight of
                                Inl e \<Rightarrow> Inl e
                              | Inr r \<Rightarrow> afterMeasurement (fst r) (snd r))))))"

definition resizeAllItems :: "listView \<Rightarrow> listView" where
  "resizeAllItems s =
     (if 0 < layoutWidth s \<and> layoutWidth s \<noteq> contentWidth s then
        s\<lparr>contentWidth := layoutWidth s, forceUpdateCalls := forceUpdateCalls s + 1\<rparr>
      else s)"

text \<open>
  \<^verbatim>\<open>_onLayoutContainer(e)\<close> with \<^verbatim>\<open>e.width = width\<close> and
  \<^verbatim>\<open>e.height = height'\<close>. The caller's \<^verbatim>\<open>onLayout\<close> is not recorded.
\<close>

definition onLayoutContainer :: "listView \<Rightarrow> rat \<Rightarrow> rat \<Rightarrow> error + listView" where
  "onLayoutContainer s width height' =
     (if \<not> isMounted s then Inr s
      else
        (let layoutWidth' = (if padding (props s) \<noteq> 0 then width - padding (props s) else width);
             layoutHeight' = height';
             s1 = (if layoutWidth' \<noteq> layoutWidth s
                   then resizeAllItems (s\<lparr>layoutWidth := layoutWidth'\<rparr>) else s)
         in if layoutHeight' \<noteq> layoutHeight s1 then
              (let s2 = s1\<lparr>layoutHeight := layoutHeight'\<rparr>
               in case calcNewRenderedItemState s2 (props s2) of
                    Inl e \<Rightarrow> Inl e
                  | Inr s3 \<Rightarrow>
                      (let s4 = renderIfDirty s3 in reconcileCorrections s4 (props s4)))
            else Inr s1))"

definition updateStateFromProps :: "listView \<Rightarrow> props \<Rightarrow> bool \<Rightarrow> error + listView" where
  "updateStateFromProps s p initialBuild =
     (let s1 = (if initialBuild \<and> skipRenderIfItemUnchanged p then
                  s\<lparr>renderOverdrawFactor := 5, minOverdrawAmount := 2048,
                    maxOverdrawAmount := 4096, cullFraction := 6, minCullAmount := 3072\<rparr>
                else s)
      in case (if initialBuild \<or> itemList (props s1) \<noteq> itemList p then
                 (case handleItemListChange s1 p of
                    Inl e \<Rightarrow> Inl e
                  | Inr s2 \<Rightarrow> calcNewRenderedItemState s2 p)
               else Inr s1) of
           Inl e \<Rightarrow> Inl e
         | Inr s3 \<Rightarrow> Inr (renderIfDirty s3))"

text \<open>
  The constructor. \<^verbatim>\<open>super(props)\<close> has set \<^verbatim>\<open>this.props\<close> when
  \<^verbatim>\<open>_updateStateFromProps\<close> runs.
\<close>

definition constructor :: "props \<Rightarrow> error + listView" where
  "constructor p =
     (case updateStateFromProps (newListView p) p True of
        Inl e \<Rightarrow> Inl e
      | Inr s \<Rightarrow>
          Inr (s\<lparr>lastFocusedItemKey :=
                   (if \<exists>it \<in> set (itemList p). Some (key it) = initialSelectedKey p
                    then initialSelectedKey p else None)\<rparr>))"

text \<open>
  \<^verbatim>\<open>componentWillReceiveProps(nextProps)\<close>, followed by the framework's assignment
  of \<^verbatim>\<open>nextProps\<close> to \<^verbatim>\<open>this.props\<close>.
\<close>

definition componentWillReceiveProps :: "listView \<Rightarrow> props \<Rightarrow> error + listView" where
  "componentWillReceiveProps s nextProps =
     (if props s \<noteq> nextProps then updateStateFromProps s nextProps False else Inr s)"

definition receiveProps :: "listView \<Rightarrow> props \<Rightarrow> error + listView" where
  "receiveProps s nextProps =
     (case componentWillReceiveProps s nextProps of
        Inl e \<Rightarrow> Inl e
      | Inr s' \<Rightarrow> Inr (s'\<lparr>props := nextProps\<rparr>))"

text \<open>The task that \<^verbatim>\<open>_componentDidRender\<close> defers: the settle pass.\<close>

definition settle :: "listView \<Rightarrow> error + listView" where
  "settle s =
     (if isMounted s then
        (case calcNewRenderedItemState s (props s) of
           Inl e \<Rightarrow> Inl e
         | Inr s1 \<Rightarrow>
             (let s2 = renderIfDirty s1
              in case reconcileCorrections s2 (props s2) of
                   Inl e \<Rightarrow> Inl e
                 | Inr s3 \<Rightarrow> Inr (setFocusIfNeeded s3)))
      else Inr s)"

text \<open>
  \<^verbatim>\<open>_onAnimateStartStopItem\<close>, and the task it defers when an animation stops.
\<close>

definition onAnimateStartStopItem :: "listView \<Rightarrow> string \<Rightarrow> bool \<Rightarrow> error + listView" where
  "onAnimateStartStopItem s itemKey animateStart =
     (if isMounted s then
        (let hasAnimation = (itemKey \<in> pendingAnimations s)
         in if animateStart then
              (case assert (\<not> hasAnimation) ''unexpected animation start'' of
                 Inl e \<Rightarrow> Inl e
               | Inr u \<Rightarrow> Inr (s\<lparr>pendingAnimations := insert itemKey (pendingAnimations s)\<rparr>))
            else
              (case assert hasAnimation ''unexpected animation complete'' of
                 Inl e \<Rightarrow> Inl e
               | Inr u \<Rightarrow>
                   Inr (s\<lparr>pendingAnimations := pendingAnimations s - {itemKey},
                          deferredCalls := deferredCalls s + 1\<rparr>)))
      else Inr s)"

definition animationsSettled :: "listView \<Rightarrow> error + listView" where
  "animationsSettled s =
     (if isMounted s then
        (if card (pendingAnimations s) = 0 \<and> isMounted s then reconcileCorrections s (props s)
         else Inr s)
      else Inr s)"

text \<open>
  Accessibility: \<open>mobile\<close> is \<^verbatim>\<open>_isNativeIOS || _isNativeAndroid\<close>, a constant of
  the platform.
\<close>

definition maxRecycledCellsForAccessibility :: nat where
  "maxRecycledCellsForAccessibility = 0"

definition setupForAccessibility :: "bool \<Rightarrow> listView \<Rightarrow> listView" where
  "setupForAccessibility mobile s =
     (let s1 = s\<lparr>isScreenReaderEnabled := True\<rparr>
      in if mobile then
           (let s2 = (if 0 < length (recycledCells s1)
                      then s1\<lparr>recycledCells := [], isRenderDirty := True\<rparr> else s1)
            in s2\<lparr>maxRecycledCells := maxRecycledCellsForAccessibility\<rparr>)
         else s1)"

definition tearDownForAccessibility :: "bool \<Rightarrow> listView \<Rightarrow> listView" where
  "tearDownForAccessibility mobile s =
     (let s1 = s\<lparr>isScreenReaderEnabled := False\<rparr>
      in if mobile then s1\<lparr>maxRecycledCells := 50\<rparr> else s1)"

text \<open>
  \<^verbatim>\<open>componentDidMount\<close>: \<open>screenReader\<close> is the answer of
  \<^verbatim>\<open>RX.Accessibility.isScreenReaderEnabled()\<close>. The scroll to the initially selected
  item is a request to the scroll view and writes no field.
\<close>

definition componentDidMount :: "bool \<Rightarrow> bool \<Rightarrow> listView \<Rightarrow> listView" where
  "componentDidMount screenReader mobile s =
     (let s1 = (if screenReader then setupForAccessibility mobile s else s)
      in componentDidRender (s1\<lparr>isMounted := True\<rparr>))"

subsection \<open>Example instances\<close>

text \<open>
  Items of constant height 50 with the template \<^verbatim>\<open>row\<close>, and a mounted list that
  shows the single item \<^verbatim>\<open>x\<close> in a view port of height 120.
\<close>

definition rowItem :: "string \<Rightarrow> item" where
  "rowItem k = \<lparr>key = k, height = 50, measureHeight = False, template = Some ''row'',
     isNavigable = True\<rparr>"

definition exampleProps :: "string list \<Rightarrow> props" where
  "exampleProps ks = \<lparr>itemList = map rowItem ks, initialSelectedKey = None,
     skipRenderIfItemUnchanged = False, padding = 0, hasOnScroll = True\<rparr>"

definition rowCell :: "nat \<Rightarrow> string \<Rightarrow> cell" where
  "rowCell n k = \<lparr>virtualKey = n, itemTemplate = Some ''row'', isHeightConstant = True,
     height_cell = 50, cachedItemKey = k, top_cell = 0, isVisible = True, shouldUpdate = False\<rparr>"

definition oneCellView :: listView where
  "oneCellView = (newListView (exampleProps [''x'']))
      \<lparr>activeCells := [''x'' \<mapsto> rowCell 1 ''x''], nextCellKey := 2, itemMap := [''x'' \<mapsto> 0],
       itemsInRenderBlock := 1, heightOfRenderBlock := 50, containerHeight := 120,
       layoutHeight := 120, isMounted := True, isInitialFillComplete := True\<rparr>"

text \<open>
  A mounted list that shows the two items \<^verbatim>\<open>old\<close> and \<^verbatim>\<open>x\<close>, the same list with
  change-skipping enabled, the one-item list with a pending adjustment of 10, and a list
  whose single item is being measured from the guess 50.
\<close>

definition twoCellView :: listView where
  "twoCellView = (newListView (exampleProps [''old'', ''x'']))
      \<lparr>activeCells := [''old'' \<mapsto> rowCell 1 ''old'', ''x'' \<mapsto> (rowCell 2 ''x'')\<lparr>top_cell := 50\<rparr>],
       nextCellKey := 3, itemMap := [''old'' \<mapsto> 0, ''x'' \<mapsto> 1],
       itemsInRenderBlock := 2, heightOfRenderBlock := 100, containerHeight := 120,
       layoutHeight := 120, isMounted := True, isInitialFillComplete := True\<rparr>"

definition skipView :: listView where
  "skipView = twoCellView\<lparr>props := (exampleProps [''old'', ''x''])\<lparr>skipRenderIfItemUnchanged := True\<rparr>\<rparr>"

definition adjustedView :: listView where
  "adjustedView = oneCellView\<lparr>heightAboveRenderAdjustment := 10\<rparr>"

definition measuredItem :: item where
  "measuredItem = \<lparr>key = ''m'', height = 50, measureHeight = True, template = None,
     isNavigable = False\<rparr>"

definition measuringView :: listView where
  "measuringView = (newListView ((exampleProps [])\<lparr>itemList := [measuredItem]\<rparr>))
      \<lparr>activeCells := [''m'' \<mapsto> \<lparr>virtualKey = 1, itemTemplate = None, isHeightConstant = False,
          height_cell = 50, cachedItemKey = ''m'', top_cell = 0, isVisible = False,
          shouldUpdate = False\<rparr>],
       nextCellKey := 2, itemMap := [''m'' \<mapsto> 0], pendingMeasurements := {''m''},
       itemsInRenderBlock := 1, heightOfRenderBlock := 50, containerHeight := 120,
       layoutHeight := 120, isMounted := True\<rparr>"

text \<open>
  A mounted list of the item \<^verbatim>\<open>x\<close>, 700 high, and the item \<^verbatim>\<open>a\<close>, which lies
  beyond the render block of the view port of height 120 and has no cell.
\<close>

definition tallView :: listView where
  "tallView = (newListView ((exampleProps [])\<lparr>itemList := [(rowItem ''x'')\<lparr>height := 700\<rparr>, rowItem ''a'']\<rparr>))
      \<lparr>activeCells := [''x'' \<mapsto> (rowCell 1 ''x'')\<lparr>height_cell := 700\<rparr>],
       nextCellKey := 2, itemMap := [''x'' \<mapsto> 0, ''a'' \<mapsto> 1],
       itemsInRenderBlock := 1, itemsBelowRenderBlock := 1, heightOfRenderBlock := 700,
       heightBelowRenderBlock := 50, containerHeight := 750,
       layoutHeight := 120, isMounted := True, isInitialFillComplete := True\<rparr>"

section \<open>Properties\<close>

subsection \<open>Searching a list\<close>

lemma findIndex_Some:
  "findIndex xs P = Some i \<Longrightarrow> i < length xs \<and> P (xs ! i) \<and> (\<forall>j<i. \<not> P (xs ! j))"
proof (induction xs arbitrary: i)
  case Nil then show ?case by simp
next
  case (Cons x xs)
  show ?case
  proof (cases "P x")
    case True with Cons.prems show ?thesis by simp
  next
    case False
    with Cons.prems obtain j where j: "findIndex xs P = Some j" "i = Suc j" by auto
    from Cons.IH[OF j(1)] False j(2) show ?thesis
      by (auto simp: less_Suc_eq_0_disj)
  qed
qed

lemma findIndex_None: "findIndex xs P = None \<longleftrightarrow> (\<forall>x\<in>set xs. \<not> P x)"
  by (induction xs) auto

subsection \<open>The cell pool\<close>

lemma recycleCell_active:
  assumes "activeCells s k = Some c"
  shows "\<exists>s'. recycleCell s k = Inr s' \<and> activeCells s' k = None \<and>
    (if 0 < maxRecycledCells s \<and> truthy (itemTemplate c) \<and> isHeightConstant c then
       (if maxRecycledCells s < Suc (length (recycledCells s))
        then recycledCells s' = tl (recycledCells s) @ [c\<lparr>isVisible := False\<rparr>] \<and> isRenderDirty s'
        else recycledCells s' = recycledCells s @ [c\<lparr>isVisible := False\<rparr>]
               \<and> isRenderDirty s' = isRenderDirty s)
     else if 0 < maxRecycledCells s then recycledCells s' = recycledCells s \<and> isRenderDirty s'
     else recycledCells s' = recycledCells s \<and> isRenderDirty s' = isRenderDirty s) \<and>
    (length (recycledCells s) \<le> maxRecycledCells s \<longrightarrow>
       length (recycledCells s') \<le> maxRecycledCells s)"
  using assms
  by (cases "recycledCells s")
     (auto simp: recycleCell_def setCellTopAndVisibility_def splice1_def Let_def drop_Suc)

text \<open>
  C3, amended. For every active cell, \<^verbatim>\<open>_recycleCell\<close> returns normally and takes
  the cell out of the active map. If the capacity of the pool is positive and the cell
  has a non-empty template and a constant height, the hidden cell is appended to the
  recycled list; if the list then exceeds the capacity, its oldest cell is dropped and the
  render is marked dirty, so a list within the capacity stays within it. If the capacity
  is positive and the cell does not qualify, the render is marked dirty. If the capacity
  is zero, nothing but the active map changes: the dirty flag keeps its value.
\<close>

theorem recycleCell_pool:
  assumes "activeCells s k = Some c"
  shows "\<exists>s'. recycleCell s k = Inr s' \<and> activeCells s' k = None \<and>
    (if 0 < maxRecycledCells s \<and> truthy (itemTemplate c) \<and> isHeightConstant c then
       (if maxRecycledCells s < Suc (length (recycledCells s))
        then recycledCells s' = tl (recycledCells s) @ [c\<lparr>isVisible := False\<rparr>] \<and> isRenderDirty s'
        else recycledCells s' = recycledCells s @ [c\<lparr>isVisible := False\<rparr>]
               \<and> isRenderDirty s' = isRenderDirty s)
     else if 0 < maxRecycledCells s then recycledCells s' = recycledCells s \<and> isRenderDirty s'
     else recycledCells s' = recycledCells s \<and> isRenderDirty s' = isRenderDirty s) \<and>
    (length (recycledCells s) \<le> maxRecycledCells s \<longrightarrow>
       length (recycledCells s') \<le> maxRecycledCells s)"
  by (rule recycleCell_active[OF assms])

theorem recycleCell_pool_witness:
  "\<exists>s'. recycleCell oneCellView ''x'' = Inr s' \<and> activeCells s' ''x'' = None \<and>
        recycledCells s' = [(rowCell 1 ''x'')\<lparr>isVisible := False\<rparr>] \<and> \<not> isRenderDirty s'"
proof -
  have h: "activeCells oneCellView ''x'' = Some (rowCell 1 ''x'')"
    by (simp add: oneCellView_def)
  from recycleCell_pool[OF h] show ?thesis
    by (auto simp: oneCellView_def newListView_def rowCell_def truthy_def)
qed

text \<open>
  The claim C3 as stated fails: with the capacity zero that accessibility mode sets on a
  mobile platform, recycling a cell leaves the render clean.
\<close>

theorem recycleCell_zero_capacity_counterexample:
  "map_sum id (\<lambda>s'. (activeCells s' ''x'', recycledCells s', isRenderDirty s'))
     (recycleCell (setupForAccessibility True oneCellView) ''x'') = Inr (None, [], False)"
  by (simp add: recycleCell_def setupForAccessibility_def maxRecycledCellsForAccessibility_def
        oneCellView_def newListView_def)

subsection \<open>Stale measurements\<close>

text \<open>
  C9. A measurement for a key that the item map does not have, or for an item whose
  height is constant, leaves the whole instance as it is.
\<close>

theorem onLayoutItem_stale:
  assumes "itemMap s itemKey = None \<or>
           (\<exists>i it. itemMap s itemKey = Some i \<and> itemAt (itemList (props s)) (int i) = Some it
                    \<and> \<not> measureHeight it)"
  shows "onLayoutItem s itemKey newHeight = Inr s"
  using assms by (auto simp: onLayoutItem_def Let_def)

theorem onLayoutItem_stale_witness:
  "onLayoutItem oneCellView ''gone'' 80 = Inr oneCellView \<and>
   onLayoutItem oneCellView ''x'' 80 = Inr oneCellView"
proof -
  have h1: "itemMap oneCellView ''gone'' = None \<or>
           (\<exists>i it. itemMap oneCellView ''gone'' = Some i \<and> itemAt (itemList (props oneCellView)) (int i) = Some it
                    \<and> \<not> measureHeight it)"
    by (simp add: oneCellView_def newListView_def)
  have h2: "itemMap oneCellView ''x'' = None \<or>
           (\<exists>i it. itemMap oneCellView ''x'' = Some i \<and> itemAt (itemList (props oneCellView)) (int i) = Some it
                    \<and> \<not> measureHeight it)"
    by (simp add: oneCellView_def newListView_def exampleProps_def rowItem_def itemAt_def)
  show ?thesis
    using onLayoutItem_stale[OF h1, of 80] onLayoutItem_stale[OF h2, of 80] by simp
qed

subsection \<open>Duplicate keys\<close>

lemma buildNewItemMap_duplicate:
  assumes "(\<exists>it\<in>set xs. m (key it) \<noteq> None) \<or> \<not> distinct (map key xs)"
  shows "\<exists>k. buildNewItemMap s xs i m = Inl (AssertionFailed (''Found a duplicate key: '' @ k))"
  using assms
proof (induction xs arbitrary: s i m)
  case Nil then show ?case by simp
next
  case (Cons x xs)
  show ?case
  proof (cases "m (key x) = None")
    case False
    then show ?thesis by (auto simp: assert_def)
  next
    case True
    let ?m = "m(key x \<mapsto> i)"
    from Cons.prems True have "(\<exists>it\<in>set xs. ?m (key it) \<noteq> None) \<or> \<not> distinct (map key xs)"
      by auto
    from Cons.IH[OF this]
    have "\<exists>k. buildNewItemMap s' xs (i + 1) ?m
                = Inl (AssertionFailed (''Found a duplicate key: '' @ k))" for s'
      by blast
    with True show ?thesis by (simp add: assert_def)
  qed
qed

text \<open>
  C8. If two items of the new list have the same key, \<^verbatim>\<open>_handleItemListChange\<close>
  fails with the assertion \<^verbatim>\<open>Found a duplicate key\<close>, whatever the instance.
\<close>

theorem duplicate_key_asserts:
  assumes "\<not> distinct (map key (itemList p))"
  shows "\<exists>k. handleItemListChange s p = Inl (AssertionFailed (''Found a duplicate key: '' @ k))"
proof -
  from assms buildNewItemMap_duplicate[of "itemList p" Map.empty s 0]
  obtain k where "buildNewItemMap s (itemList p) 0 Map.empty
                    = Inl (AssertionFailed (''Found a duplicate key: '' @ k))"
    by blast
  then show ?thesis by (auto simp: handleItemListChange_def)
qed

theorem duplicate_key_asserts_witness:
  "\<exists>k. handleItemListChange oneCellView (exampleProps [''x'', ''y'', ''x''])
     = Inl (AssertionFailed (''Found a duplicate key: '' @ k))"
proof -
  have h: "\<not> distinct (map key (itemList (exampleProps [''x'', ''y'', ''x''])))"
    by (simp add: exampleProps_def rowItem_def)
  from duplicate_key_asserts[OF h, of oneCellView] show ?thesis .
qed

subsection \<open>Induction rules for the four loops of the recomputation\<close>

text \<open>
  Each rule says: a relation that holds between an instance and itself, and that one
  iteration of the loop extends, holds between the instance before the loop and the one
  after it.
\<close>

declare cullTop.simps [simp del] cullBottom.simps [simp del] growBottom.simps [simp del]
  growTop.simps [simp del]

lemma cullTop_rule:
  assumes run: "cullTop s p l = Inr s'"
    and stop: "\<And>s. R s s"
    and step: "\<And>s it s1 s'.
       \<lbrakk>0 < itemsInRenderBlock s; itemAt (itemList p) (itemsAboveRenderBlock s) = Some it;
        recycleCell
          (s\<lparr>itemsInRenderBlock := itemsInRenderBlock s - 1,
             heightOfRenderBlock := heightOfRenderBlock s - getHeightOfItem s (Some it),
             itemsAboveRenderBlock := itemsAboveRenderBlock s + 1,
             heightAboveRenderBlock := heightAboveRenderBlock s + getHeightOfItem s (Some it)\<rparr>)
          (key it) = Inr s1;
        R s1 s'\<rbrakk> \<Longrightarrow> R s s'"
  shows "R s s'"
  using run step
proof (induction s p l rule: cullTop.induct)
  case (1 s p l)
  note eq = "1.prems"(1)[unfolded cullTop.simps[of s p l]]
  note step = "1.prems"(2)
  show ?case
  proof (cases "0 < itemsInRenderBlock s")
    case False
    with eq show ?thesis by (simp add: stop)
  next
    case pos: True
    show ?thesis
    proof (cases "itemAt (itemList p) (itemsAboveRenderBlock s)")
      case None
      with eq pos show ?thesis by simp
    next
      case (Some it)
      show ?thesis
      proof (cases "isItemHeightKnown s it \<and>
          \<not> l \<le> heightAboveRenderAdjustment s + heightAboveRenderBlock s + getHeightOfItem s (Some it)")
        case False
        with eq pos Some show ?thesis by (auto simp: Let_def stop split: if_splits)
      next
        case go: True
        from eq pos Some go obtain s1 where
          r: "recycleCell
          (s\<lparr>itemsInRenderBlock := itemsInRenderBlock s - 1,
             heightOfRenderBlock := heightOfRenderBlock s - getHeightOfItem s (Some it),
             itemsAboveRenderBlock := itemsAboveRenderBlock s + 1,
             heightAboveRenderBlock := heightAboveRenderBlock s + getHeightOfItem s (Some it)\<rparr>)
          (key it) = Inr s1" and rest: "cullTop s1 p l = Inr s'"
          by (auto simp: Let_def split: sum.splits)
        have "R s1 s'"
          by (rule "1.IH"[OF pos Some _ refl _ r rest step]) (use go in simp_all)
        with step[OF pos Some r] show ?thesis .
      qed
    qed
  qed
qed

lemma growBottom_rule:
  assumes run: "growBottom s p l ys = Inr r"
    and stop: "\<And>s. R s s"
    and step: "\<And>s ys r1 s'.
       \<lbrakk>0 < itemsBelowRenderBlock s;
        buildItem s p (itemsAboveRenderBlock s + itemsInRenderBlock s) False ys = Inr r1;
        R (fst r1) s'\<rbrakk> \<Longrightarrow> R s s'"
  shows "R s (fst r)"
  using run step
proof (induction s p l ys rule: growBottom.induct)
  case (1 s p l ys)
  note eq = "1.prems"(1)[unfolded growBottom.simps[of s p l ys]]
  note step = "1.prems"(2)
  show ?case
  proof (cases "card (pendingMeasurements s) < maxSimultaneousMeasures \<and>
      \<not> (itemsBelowRenderBlock s \<le> 0 \<or>
         l \<le> heightAboveRenderAdjustment s + heightAboveRenderBlock s + heightOfRenderBlock s)")
    case False
    with eq have "r = (s, ys)" by (auto split: if_splits)
    then show ?thesis by (simp add: stop)
  next
    case go: True
    from eq go obtain r1 where
      b: "buildItem s p (itemsAboveRenderBlock s + itemsInRenderBlock s) False ys = Inr r1"
      and rest: "growBottom (fst r1) p l (snd r1) = Inr r"
      by (auto split: sum.splits)
    have "R (fst r1) (fst r)"
      by (rule "1.IH"[OF _ _ b rest step]) (use go in simp_all)
    moreover from go have "0 < itemsBelowRenderBlock s" by simp
    ultimately show ?thesis using step[OF _ b] by blast
  qed
qed

lemma cullBottom_rule:
  assumes run: "cullBottom s p l = Inr s'"
    and stop: "\<And>s. R s s"
    and step: "\<And>s it s1 s'.
       \<lbrakk>0 < itemsInRenderBlock s; itemAt (itemList p) (itemsAboveRenderBlock s + itemsInRenderBlock s - 1) = Some it;
        recycleCell
          (s\<lparr>itemsInRenderBlock := itemsInRenderBlock s - 1,
             heightOfRenderBlock := heightOfRenderBlock s - getHeightOfItem s (Some it),
             itemsBelowRenderBlock := itemsBelowRenderBlock s + 1,
             heightBelowRenderBlock := heightBelowRenderBlock s + getHeightOfItem s (Some it)\<rparr>)
          (key it) = Inr s1;
        R s1 s'\<rbrakk> \<Longrightarrow> R s s'"
  shows "R s s'"
  using run step
proof (induction s p l rule: cullBottom.induct)
  case (1 s p l)
  note eq = "1.prems"(1)[unfolded cullBottom.simps[of s p l]]
  note step = "1.prems"(2)
  show ?case
  proof (cases "0 < itemsInRenderBlock s")
    case False
    with eq show ?thesis by (simp add: stop)
  next
    case pos: True
    show ?thesis
    proof (cases "itemAt (itemList p) (itemsAboveRenderBlock s + itemsInRenderBlock s - 1)")
      case None
      with eq pos show ?thesis by simp
    next
      case (Some it)
      show ?thesis
      proof (cases "isItemHeightKnown s it \<and>
          \<not> heightAboveRenderAdjustment s + heightAboveRenderBlock s + heightOfRenderBlock s
              - getHeightOfItem s (Some it) \<le> l")
        case False
        with eq pos Some show ?thesis by (auto simp: Let_def stop split: if_splits)
      next
        case go: True
        from eq pos Some go obtain s1 where
          r: "recycleCell
          (s\<lparr>itemsInRenderBlock := itemsInRenderBlock s - 1,
             heightOfRenderBlock := heightOfRenderBlock s - getHeightOfItem s (Some it),
             itemsBelowRenderBlock := itemsBelowRenderBlock s + 1,
             heightBelowRenderBlock := heightBelowRenderBlock s + getHeightOfItem s (Some it)\<rparr>)
          (key it) = Inr s1" and rest: "cullBottom s1 p l = Inr s'"
          by (auto simp: Let_def split: sum.splits)
        have "R s1 s'"
          by (rule "1.IH"[OF pos Some _ refl _ r rest step]) (use go in simp_all)
        with step[OF pos Some r] show ?thesis .
      qed
    qed
  qed
qed

lemma growTop_rule:
  assumes run: "growTop s p l ys = Inr r"
    and stop: "\<And>s. R s s"
    and step: "\<And>s ys r1 s'.
       \<lbrakk>0 < itemsAboveRenderBlock s;
        buildItem s p (itemsAboveRenderBlock s - 1) True ys = Inr r1;
        R (fst r1) s'\<rbrakk> \<Longrightarrow> R s s'"
  shows "R s (fst r)"
  using run step
proof (induction s p l ys rule: growTop.induct)
  case (1 s p l ys)
  note eq = "1.prems"(1)[unfolded growTop.simps[of s p l ys]]
  note step = "1.prems"(2)
  show ?case
  proof (cases "card (pendingMeasurements s) < maxSimultaneousMeasures \<and>
      \<not> (itemsAboveRenderBlock s \<le> 0 \<or>
         heightAboveRenderAdjustment s + heightAboveRenderBlock s \<le> l)")
    case False
    with eq have "r = (s, ys)" by (auto split: if_splits)
    then show ?thesis by (simp add: stop)
  next
    case go: True
    from eq go obtain r1 where
      b: "buildItem s p (itemsAboveRenderBlock s - 1) True ys = Inr r1"
      and rest: "growTop (fst r1) p l (snd r1) = Inr r"
      by (auto split: sum.splits)
    have "R (fst r1) (fst r)"
      by (rule "1.IH"[OF _ _ b rest step]) (use go in simp_all)
    moreover from go have "0 < itemsAboveRenderBlock s" by simp
    ultimately show ?thesis using step[OF _ b] by blast
  qed
qed


subsection \<open>What a recomputation pass leaves alone\<close>

text \<open>
  \<open>untouched\<close> lists the fields that neither the recomputation nor the reconciliation
  writes. \<open>grown\<close> adds that the pending adjustment is kept and that only keys of items of
  unknown height join the pending measurements. \<open>countersAgree\<close> is the invariant of the
  three counters, and \<open>recomputed\<close> says that a pass keeps it.
\<close>

definition untouched :: "listView \<Rightarrow> listView \<Rightarrow> bool" where
  "untouched s s' \<longleftrightarrow>
     props s' = props s \<and> lastFocusedItemKey s' = lastFocusedItemKey s \<and>
     lastScrollTop s' = lastScrollTop s \<and> layoutHeight s' = layoutHeight s \<and>
     isMounted s' = isMounted s \<and> itemMap s' = itemMap s \<and>
     pendingAnimations s' = pendingAnimations s \<and> heightCache s' = heightCache s \<and>
     maxRecycledCells s' = maxRecycledCells s \<and> onScrollCalls s' = onScrollCalls s"

definition unknownKeys :: "listView \<Rightarrow> props \<Rightarrow> string set" where
  "unknownKeys s p = {key it |it. it \<in> set (itemList p) \<and> \<not> isItemHeightKnown s it}"

definition grown :: "props \<Rightarrow> listView \<Rightarrow> listView \<Rightarrow> bool" where
  "grown p s s' \<longleftrightarrow>
     untouched s s' \<and> heightAboveRenderAdjustment s' = heightAboveRenderAdjustment s \<and>
     pendingMeasurements s' \<subseteq> pendingMeasurements s \<union> unknownKeys s p"

definition countersAgree :: "listView \<Rightarrow> item list \<Rightarrow> bool" where
  "countersAgree s xs \<longleftrightarrow>
     itemsAboveRenderBlock s + itemsInRenderBlock s + itemsBelowRenderBlock s = int (length xs)"

definition recomputed :: "props \<Rightarrow> listView \<Rightarrow> listView \<Rightarrow> bool" where
  "recomputed p s s' \<longleftrightarrow>
     grown p s s' \<and> (countersAgree s (itemList p) \<longrightarrow> countersAgree s' (itemList p))"

lemma untouched_refl: "untouched s s" by (simp add: untouched_def)
lemma untouched_trans: "untouched s s1 \<Longrightarrow> untouched s1 s2 \<Longrightarrow> untouched s s2"
  by (simp add: untouched_def)
lemma unknownKeys_cong: "heightCache s' = heightCache s \<Longrightarrow> unknownKeys s' p = unknownKeys s p"
  by (simp add: unknownKeys_def isItemHeightKnown_def)
lemma grown_refl: "grown p s s" by (simp add: grown_def untouched_refl)
lemma grown_trans: "grown p s s1 \<Longrightarrow> grown p s1 s2 \<Longrightarrow> grown p s s2"
  unfolding grown_def
  using unknownKeys_cong[of s1 s p] by (auto simp: untouched_def)
lemma recomputed_refl: "recomputed p s s" by (simp add: recomputed_def grown_refl)
lemma recomputed_trans: "recomputed p s s1 \<Longrightarrow> recomputed p s1 s2 \<Longrightarrow> recomputed p s s2"
  unfolding recomputed_def using grown_trans by blast

lemma setCellTopAndVisibility_recomputed:
  "setCellTopAndVisibility s k v t = Inr s' \<Longrightarrow> recomputed p s s'"
  by (auto simp: setCellTopAndVisibility_def assert_def recomputed_def grown_def untouched_def
        countersAgree_def split: option.splits)

lemma recycleCell_recomputed: "recycleCell s k = Inr s' \<Longrightarrow> recomputed p s s'"
  by (auto simp: recycleCell_def setCellTopAndVisibility_def assert_def Let_def recomputed_def
        grown_def untouched_def countersAgree_def split: option.splits if_splits)

lemma allocateCell_recomputed: "allocateCell s k t i c h y v = Inr s' \<Longrightarrow> recomputed p s s'"
  by (auto simp: allocateCell_def assert_def Let_def recomputed_def grown_def untouched_def
        countersAgree_def split: option.splits if_splits prod.splits)

lemma cullTop_recomputed: "cullTop s p l = Inr s' \<Longrightarrow> recomputed p s s'"
proof (erule cullTop_rule[where R = "recomputed p"])
  show "recomputed p s s" for s by (rule recomputed_refl)
next
  fix s it s1 s'
  assume r: "recycleCell
          (s\<lparr>itemsInRenderBlock := itemsInRenderBlock s - 1,
             heightOfRenderBlock := heightOfRenderBlock s - getHeightOfItem s (Some it),
             itemsAboveRenderBlock := itemsAboveRenderBlock s + 1,
             heightAboveRenderBlock := heightAboveRenderBlock s + getHeightOfItem s (Some it)\<rparr>)
          (key it) = Inr s1" (is "recycleCell ?u _ = _") and rest: "recomputed p s1 s'"
  have "recomputed p s ?u"
    by (simp add: recomputed_def grown_def untouched_def unknownKeys_def isItemHeightKnown_def
          countersAgree_def)
  from recomputed_trans[OF recomputed_trans[OF this recycleCell_recomputed[OF r]] rest]
  show "recomputed p s s'" .
qed

lemma cullBottom_recomputed: "cullBottom s p l = Inr s' \<Longrightarrow> recomputed p s s'"
proof (erule cullBottom_rule[where R = "recomputed p"])
  show "recomputed p s s" for s by (rule recomputed_refl)
next
  fix s it s1 s'
  assume r: "recycleCell
          (s\<lparr>itemsInRenderBlock := itemsInRenderBlock s - 1,
             heightOfRenderBlock := heightOfRenderBlock s - getHeightOfItem s (Some it),
             itemsBelowRenderBlock := itemsBelowRenderBlock s + 1,
             heightBelowRenderBlock := heightBelowRenderBlock s + getHeightOfItem s (Some it)\<rparr>)
          (key it) = Inr s1" (is "recycleCell ?u _ = _") and rest: "recomputed p s1 s'"
  have "recomputed p s ?u"
    by (simp add: recomputed_def grown_def untouched_def unknownKeys_def isItemHeightKnown_def
          countersAgree_def)
  from recomputed_trans[OF recomputed_trans[OF this recycleCell_recomputed[OF r]] rest]
  show "recomputed p s s'" .
qed

lemma itemAt_in_set: "itemAt xs i = Some x \<Longrightarrow> x \<in> set xs"
  by (auto simp: itemAt_def split: if_splits)

lemma buildItem_recomputed:
  assumes "buildItem s p i a ys = Inr r"
  shows "recomputed p s (fst r)"
proof -
  from assms obtain it where it: "itemAt (itemList p) i = Some it"
    by (auto simp: buildItem_def split: option.splits)
  let ?h = "getHeightOfItem s (Some it)"
  let ?s1 = "s\<lparr>itemsInRenderBlock := itemsInRenderBlock s + 1,
                heightOfRenderBlock := heightOfRenderBlock s + ?h\<rparr>"
  let ?s2 = "if a then ?s1\<lparr>itemsAboveRenderBlock := itemsAboveRenderBlock ?s1 - 1,
                            heightAboveRenderBlock := heightAboveRenderBlock ?s1 - ?h\<rparr>
             else ?s1\<lparr>itemsBelowRenderBlock := itemsBelowRenderBlock ?s1 - 1,
                       heightBelowRenderBlock := heightBelowRenderBlock ?s1 - ?h\<rparr>"
  let ?s3 = "if \<not> isItemHeightKnown s it
             then ?s2\<lparr>pendingMeasurements := insert (key it) (pendingMeasurements ?s2)\<rparr> else ?s2"
  from assms it obtain y v where
    al: "allocateCell ?s3 (key it) (template it) (nat i) (\<not> measureHeight it) (height it) y v
           = Inr (fst r)"
    by (auto simp: buildItem_def Let_def split: sum.splits if_splits)
  from itemAt_in_set[OF it] have "recomputed p s ?s3"
    by (auto simp: recomputed_def grown_def untouched_def unknownKeys_def isItemHeightKnown_def
          countersAgree_def)
  from recomputed_trans[OF this allocateCell_recomputed[OF al]] show ?thesis .
qed

lemma growBottom_recomputed: "growBottom s p l ys = Inr r \<Longrightarrow> recomputed p s (fst r)"
  by (erule growBottom_rule[where R = "recomputed p"])
     (auto intro: recomputed_refl recomputed_trans dest: buildItem_recomputed)

lemma growTop_recomputed: "growTop s p l ys = Inr r \<Longrightarrow> recomputed p s (fst r)"
  by (erule growTop_rule[where R = "recomputed p"])
     (auto intro: recomputed_refl recomputed_trans dest: buildItem_recomputed)


lemma findFirstItem_grown:
  assumes "findFirstItem s l xs i y = Inr s'" and "set xs \<subseteq> set (itemList p)"
  shows "grown p s s'"
  using assms
proof (induction xs arbitrary: i y)
  case Nil
  then show ?case by (simp add: grown_refl)
next
  case (Cons x xs)
  show ?case
  proof (cases "l < y + getHeightOfItem s (Some x)")
    case False
    with Cons show ?thesis by (simp add: Let_def)
  next
    case True
    let ?s1 = "s\<lparr>itemsAboveRenderBlock := int i, itemsInRenderBlock := 1\<rparr>"
    from Cons.prems True obtain s2 where
      al: "allocateCell ?s1 (key x) (template x) i (\<not> measureHeight x) (height x)
             (y + getHeightOfItem s (Some x) - getHeightOfItem s (Some x)) (shouldShowItem ?s1 x)
             = Inr s2"
      and s': "s' = (if \<not> isItemHeightKnown s2 x
                     then s2\<lparr>pendingMeasurements := insert (key x) (pendingMeasurements s2)\<rparr>
                     else s2)"
      by (auto simp: Let_def split: sum.splits)
    have g1: "grown p s ?s1"
      by (simp add: grown_def untouched_def)
    from allocateCell_recomputed[OF al, of p] have g2: "grown p ?s1 s2"
      by (simp add: recomputed_def)
    from g2 have hc: "heightCache s2 = heightCache s" by (simp add: grown_def untouched_def)
    from Cons.prems(2) hc have "grown p s2 s'" unfolding s'
      by (auto simp: grown_def untouched_def unknownKeys_def isItemHeightKnown_def)
    from grown_trans[OF grown_trans[OF g1 g2] this] show ?thesis .
  qed
qed

lemma startRenderBlock_recomputed:
  assumes "startRenderBlock s p l = Inr s'"
  shows "recomputed p s s'" and "countersAgree s' (itemList p)"
proof -
  from assms obtain s1 where
    f: "findFirstItem (s\<lparr>itemsAboveRenderBlock := 0\<rparr>) l (itemList p) 0
          (heightAboveRenderAdjustment s) = Inr s1"
    by (auto simp: startRenderBlock_def split: sum.splits)
  from findFirstItem_grown[OF f, of p] have g: "grown p s s1"
    by (simp add: grown_def untouched_def unknownKeys_def isItemHeightKnown_def)
  from assms f show c: "countersAgree s' (itemList p)"
    by (auto simp: startRenderBlock_def Let_def countersAgree_def)
  from assms f g have "grown p s s'"
    by (auto simp: startRenderBlock_def Let_def grown_def untouched_def)
  with c show "recomputed p s s'" by (simp add: recomputed_def)
qed

lemma positionCells_recomputed:
  "positionCells s p is y = Inr r \<Longrightarrow> recomputed p s (fst r)"
proof (induction "is" arbitrary: s y)
  case Nil
  then show ?case by (auto simp: recomputed_refl)
next
  case (Cons i "is")
  from Cons.prems obtain it s1 where
    c: "setCellTopAndVisibility s (key it) (shouldShowItem s it) y = Inr s1"
    and rest: "positionCells s1 p is (y + getHeightOfItem s1 (Some it)) = Inr r"
    by (auto split: option.splits sum.splits)
  from recomputed_trans[OF setCellTopAndVisibility_recomputed[OF c] Cons.IH[OF rest]]
  show ?case .
qed

lemma popLoop_recomputed: "popLoop s p is = Inr s' \<Longrightarrow> recomputed p s s'"
proof (induction "is" arbitrary: s)
  case Nil
  then show ?case by (auto simp: recomputed_refl)
next
  case (Cons i "is")
  from Cons.prems obtain it s1 and c :: cell where
    c: "setCellTopAndVisibility s (key it) (shouldShowItem s it) (top_cell c) = Inr s1"
    and rest: "popLoop s1 p is = Inr s'"
    by (auto split: option.splits sum.splits)
  from recomputed_trans[OF setCellTopAndVisibility_recomputed[OF c] Cons.IH[OF rest]]
  show ?case .
qed

lemma popInvisibleIntoView_recomputed:
  assumes "popInvisibleIntoView s p = Inr s'"
  shows "recomputed p s s'"
proof -
  have "recomputed p s (s\<lparr>isInitialFillComplete := True\<rparr>)"
    by (simp add: recomputed_def grown_def untouched_def unknownKeys_def isItemHeightKnown_def
          countersAgree_def)
  from recomputed_trans[OF this popLoop_recomputed] assms show ?thesis
    by (simp add: popInvisibleIntoView_def)
qed

lemma componentDidRender_recomputed: "recomputed p s (componentDidRender s)"
  by (simp add: componentDidRender_def recomputed_def grown_def untouched_def unknownKeys_def
        isItemHeightKnown_def countersAgree_def)

lemma calcNewRenderedItemState_recomputed:
  assumes "calcNewRenderedItemState s p = Inr s'"
  shows "recomputed p s s'"
proof (cases "layoutHeight s = 0 \<or> length (itemList p) = 0 \<or> 0 < card (pendingMeasurements s)")
  case True
  with assms have "s' = s" by (auto simp: calcNewRenderedItemState_def split: if_splits)
  then show ?thesis by (simp add: recomputed_refl)
next
  case False
  let ?cullMargin = "max (layoutHeight s * cullFraction s) (minCullAmount s)"
  from assms False obtain s1 where
    s1: "cullTop s p (lastScrollTop s - ?cullMargin) = Inr s1"
    by (auto simp: calcNewRenderedItemState_def Let_def split: sum.splits)
  from assms False s1 obtain s2 where
    s2: "cullBottom s1 p (lastScrollTop s + layoutHeight s + ?cullMargin) = Inr s2"
    by (auto simp: calcNewRenderedItemState_def Let_def split: sum.splits)
  let ?renderMargin = "if isInitialFillComplete s2 then calcOverdrawAmount s2 else 0"
  let ?s3r = "if itemsInRenderBlock s2 = 0
      then startRenderBlock s2 p (lastScrollTop s2 - ?renderMargin) else Inr s2"
  from assms False s1 s2 obtain s3 where s3: "?s3r = Inr s3"
    by (auto simp: calcNewRenderedItemState_def Let_def split: sum.splits)
  from assms False s1 s2 s3 obtain r4 where
    r4: "positionCells s3 p [0..itemsInRenderBlock s3 - 1]
           (heightAboveRenderBlock s3 + heightAboveRenderAdjustment s3) = Inr r4"
    by (auto simp: calcNewRenderedItemState_def Let_def split: sum.splits)
  let ?ch = "max (heightAboveRenderAdjustment s3 + heightAboveRenderBlock s3
                    + heightOfRenderBlock s3 + heightBelowRenderBlock s3) (layoutHeight s3)"
  let ?s5 = "if ?ch \<noteq> containerHeight (fst r4)
     then (fst r4)\<lparr>containerHeight := ?ch\<rparr> else fst r4"
  from assms False s1 s2 s3 r4 obtain r6 where
    r6: "growBottom ?s5 p (lastScrollTop s2 + layoutHeight s2 + ?renderMargin)
           (heightAboveRenderBlock s3 + heightAboveRenderAdjustment s3, snd r4) = Inr r6"
    by (auto simp: calcNewRenderedItemState_def Let_def split: sum.splits)
  from assms False s1 s2 s3 r4 r6 obtain r7 where
    r7: "growTop (fst r6) p (lastScrollTop s2 - ?renderMargin) (snd r6) = Inr r7"
    by (auto simp: calcNewRenderedItemState_def Let_def split: sum.splits)
  from assms False s1 s2 s3 r4 r6 r7 have last:
    "(if \<not> isInitialFillComplete (fst r7) \<and> \<not> isRenderDirty (fst r7)
         \<and> card (pendingMeasurements (fst r7)) = 0
      then (case popInvisibleIntoView (fst r7) p of Inl e \<Rightarrow> Inl e
            | Inr s8 \<Rightarrow> Inr (componentDidRender s8))
      else Inr (fst r7)) = Inr s'"
    by (auto simp: calcNewRenderedItemState_def Let_def split: sum.splits)
  have a1: "recomputed p s s1" by (rule cullTop_recomputed[OF s1])
  have a2: "recomputed p s1 s2" by (rule cullBottom_recomputed[OF s2])
  have a3: "recomputed p s2 s3"
    using s3 startRenderBlock_recomputed(1) by (auto simp: recomputed_refl split: if_splits)
  have a4: "recomputed p s3 (fst r4)" by (rule positionCells_recomputed[OF r4])
  have a5: "recomputed p (fst r4) ?s5"
    by (simp add: recomputed_def grown_def untouched_def unknownKeys_def
          isItemHeightKnown_def countersAgree_def)
  have a6: "recomputed p ?s5 (fst r6)" by (rule growBottom_recomputed[OF r6])
  have a7: "recomputed p (fst r6) (fst r7)" by (rule growTop_recomputed[OF r7])
  have a8: "recomputed p (fst r7) s'"
    using last
    by (auto simp: recomputed_refl split: if_splits sum.splits
             intro: recomputed_trans[OF popInvisibleIntoView_recomputed
                                        componentDidRender_recomputed])
  from a1 a2 a3 a4 a5 a6 a7 a8 show ?thesis
    by (blast intro: recomputed_trans)
qed


text \<open>Reconciliation and the render request.\<close>

definition settled :: "listView \<Rightarrow> listView \<Rightarrow> bool" where
  "settled s s' \<longleftrightarrow>
     untouched s s' \<and> pendingMeasurements s' = pendingMeasurements s \<and>
     itemsAboveRenderBlock s' = itemsAboveRenderBlock s \<and>
     itemsInRenderBlock s' = itemsInRenderBlock s \<and>
     itemsBelowRenderBlock s' = itemsBelowRenderBlock s \<and>
     heightOfRenderBlock s' = heightOfRenderBlock s"

lemma settled_refl: "settled s s" by (simp add: settled_def untouched_def)
lemma settled_trans: "settled s s1 \<Longrightarrow> settled s1 s2 \<Longrightarrow> settled s s2"
  by (simp add: settled_def untouched_def)

lemma setCellTopAndVisibility_settled:
  "setCellTopAndVisibility s k v t = Inr s' \<Longrightarrow> settled s s'"
  by (auto simp: setCellTopAndVisibility_def assert_def settled_def untouched_def
           split: option.splits)

lemma shiftCells_settled: "shiftCells s p is = Inr s' \<Longrightarrow> settled s s'"
proof (induction "is" arbitrary: s)
  case Nil
  then show ?case by (simp add: settled_refl)
next
  case (Cons i "is")
  from Cons.prems obtain s1 and it :: item and c :: cell where
    c: "setCellTopAndVisibility s (key it) (isVisible c)
          (top_cell c - heightAboveRenderAdjustment s) = Inr s1"
    and rest: "shiftCells s1 p is = Inr s'"
    by (auto split: option.splits sum.splits)
  from settled_trans[OF setCellTopAndVisibility_settled[OF c] Cons.IH[OF rest]] show ?case .
qed

lemma reconcileCorrections_cases:
  assumes "reconcileCorrections s p = Inr s'"
  obtains (idle) "s' = s"
  | (flush) s2 where "card (pendingAnimations s) = 0" "heightAboveRenderAdjustment s \<noteq> 0"
      "shiftCells (s\<lparr>containerHeight := containerHeight s - heightAboveRenderAdjustment s\<rparr>) p
         [itemsAboveRenderBlock s..itemsAboveRenderBlock s + itemsInRenderBlock s - 1] = Inr s2"
      "s' = s2\<lparr>heightAboveRenderAdjustment := 0\<rparr>"
  using assms
  by (auto simp: reconcileCorrections_def Let_def split: if_splits sum.splits)

lemma reconcileCorrections_settled:
  assumes "reconcileCorrections s p = Inr s'"
  shows "settled s s'"
  using assms
proof (cases rule: reconcileCorrections_cases)
  case idle
  then show ?thesis by (simp add: settled_refl)
next
  case (flush s2)
  have a: "settled s (s\<lparr>containerHeight := containerHeight s - heightAboveRenderAdjustment s\<rparr>)"
    by (simp add: settled_def untouched_def)
  have b: "settled s2 s'" unfolding flush(4)
    by (simp add: settled_def untouched_def)
  from settled_trans[OF settled_trans[OF a shiftCells_settled[OF flush(3)]] b] show ?thesis .
qed

lemma renderIfDirty_settled: "settled s (renderIfDirty s)"
  by (simp add: renderIfDirty_def settled_def untouched_def)

lemma calcNewRenderedItemState_counters:
  assumes "calcNewRenderedItemState s p = Inr s'" and "countersAgree s (itemList p)"
  shows "countersAgree s' (itemList p)"
  using calcNewRenderedItemState_recomputed[OF assms(1)] assms(2) by (simp add: recomputed_def)

lemma calcNewRenderedItemState_untouched:
  "calcNewRenderedItemState s p = Inr s' \<Longrightarrow> untouched s s'"
  using calcNewRenderedItemState_recomputed[of s p s'] by (simp add: recomputed_def grown_def)

lemma settled_counters: "settled s s' \<Longrightarrow> countersAgree s' xs = countersAgree s xs"
  by (simp add: settled_def countersAgree_def)

lemma handleItemListChange_counters:
  "handleItemListChange s p = Inr s' \<Longrightarrow> countersAgree s' (itemList p)"
  by (auto simp: handleItemListChange_def Let_def countersAgree_def
           split: sum.splits prod.splits if_splits)

text \<open>What the recomputation, the render request and the reconciliation do in a row.\<close>

definition recomputeAndReconcile :: "listView \<Rightarrow> error + listView" where
  "recomputeAndReconcile s =
     (case calcNewRenderedItemState s (props s) of
        Inl e \<Rightarrow> Inl e
      | Inr s2 \<Rightarrow> reconcileCorrections (renderIfDirty s2) (props (renderIfDirty s2)))"

lemma recomputeAndReconcile_untouched:
  assumes "recomputeAndReconcile s = Inr s'"
  shows "untouched s s'"
    and "countersAgree s (itemList (props s)) \<Longrightarrow> countersAgree s' (itemList (props s'))"
proof -
  from assms obtain s2 where
    c: "calcNewRenderedItemState s (props s) = Inr s2"
    and r: "reconcileCorrections (renderIfDirty s2) (props (renderIfDirty s2)) = Inr s'"
    by (auto simp: recomputeAndReconcile_def split: sum.splits)
  have st: "settled s2 s'"
    by (rule settled_trans[OF renderIfDirty_settled reconcileCorrections_settled[OF r]])
  from calcNewRenderedItemState_untouched[OF c] st show u: "untouched s s'"
    by (auto simp: settled_def intro: untouched_trans)
  assume "countersAgree s (itemList (props s))"
  from calcNewRenderedItemState_counters[OF c this] settled_counters[OF st] u
  show "countersAgree s' (itemList (props s'))"
    by (simp add: untouched_def)
qed

lemma onScroll_unfold:
  "onScroll s t l =
     (if lastScrollTop s = t then Inr s
      else case recomputeAndReconcile (s\<lparr>lastScrollTop := t\<rparr>) of
             Inl e \<Rightarrow> Inl e
           | Inr s4 \<Rightarrow> Inr (if hasOnScroll (props s4)
                             then s4\<lparr>onScrollCalls := onScrollCalls s4 @ [(t, l)]\<rparr> else s4))"
  by (simp add: onScroll_def recomputeAndReconcile_def Let_def split: sum.splits)

lemma onScrollHorizontal_unfold:
  "onScrollHorizontal s t l =
     (if lastScrollTop s = l then Inr s
      else case recomputeAndReconcile (s\<lparr>lastScrollTop := l\<rparr>) of
             Inl e \<Rightarrow> Inl e
           | Inr s4 \<Rightarrow> Inr (if hasOnScroll (props s4)
                             then s4\<lparr>onScrollCalls := onScrollCalls s4 @ [(t, l)]\<rparr> else s4))"
  by (simp add: onScrollHorizontal_def recomputeAndReconcile_def Let_def split: sum.splits)

lemma onScroll_lastScrollTop:
  assumes "onScroll s t l = Inr s'"
  shows "lastScrollTop s' = t"
proof (cases "lastScrollTop s = t")
  case True
  with assms show ?thesis by (simp add: onScroll_unfold)
next
  case False
  with assms obtain s4 where r: "recomputeAndReconcile (s\<lparr>lastScrollTop := t\<rparr>) = Inr s4"
    and s': "s' = (if hasOnScroll (props s4)
                   then s4\<lparr>onScrollCalls := onScrollCalls s4 @ [(t, l)]\<rparr> else s4)"
    by (auto simp: onScroll_unfold split: sum.splits)
  from recomputeAndReconcile_untouched(1)[OF r] s' show ?thesis
    by (simp add: untouched_def)
qed

lemma onScrollHorizontal_lastScrollTop:
  assumes "onScrollHorizontal s t l = Inr s'"
  shows "lastScrollTop s' = l"
proof (cases "lastScrollTop s = l")
  case True
  with assms show ?thesis by (simp add: onScrollHorizontal_unfold)
next
  case False
  with assms obtain s4 where r: "recomputeAndReconcile (s\<lparr>lastScrollTop := l\<rparr>) = Inr s4"
    and s': "s' = (if hasOnScroll (props s4)
                   then s4\<lparr>onScrollCalls := onScrollCalls s4 @ [(t, l)]\<rparr> else s4)"
    by (auto simp: onScrollHorizontal_unfold split: sum.splits)
  from recomputeAndReconcile_untouched(1)[OF r] s' show ?thesis
    by (simp add: untouched_def)
qed

subsection \<open>Scrolling\<close>

text \<open>
  C7. A scroll event whose offset on the primary axis is the recorded one returns the
  instance as it is: no field changes, so there is no recomputation, no call of
  \<^verbatim>\<open>forceUpdate\<close>, no deferred pass and no reconciliation. After any scroll event
  that the handler has processed, the same offset delivered again is such an event. Both
  hold for the vertical and for the horizontal list.
\<close>

theorem onScroll_idempotent:
  "(lastScrollTop s = scrollTop \<longrightarrow> onScroll s scrollTop scrollLeft = Inr s) \<and>
   (onScroll s scrollTop scrollLeft = Inr s' \<longrightarrow> onScroll s' scrollTop scrollLeft' = Inr s') \<and>
   (lastScrollTop s = scrollLeft \<longrightarrow> onScrollHorizontal s scrollTop scrollLeft = Inr s) \<and>
   (onScrollHorizontal s scrollTop scrollLeft = Inr s' \<longrightarrow>
      onScrollHorizontal s' scrollTop' scrollLeft = Inr s')"
  using onScroll_lastScrollTop[of s scrollTop scrollLeft s']
        onScrollHorizontal_lastScrollTop[of s scrollTop scrollLeft s']
  by (auto simp: onScroll_unfold[of s'] onScrollHorizontal_unfold[of s']
                 onScroll_unfold[of s] onScrollHorizontal_unfold[of s])

theorem onScroll_idempotent_witness:
  "onScroll oneCellView 0 7 = Inr oneCellView \<and>
   onScrollHorizontal oneCellView 7 0 = Inr oneCellView \<and>
   (\<exists>s'. onScroll oneCellView 30 0 = Inr s' \<and> onScroll s' 30 5 = Inr s') \<and>
   (\<exists>s'. onScrollHorizontal oneCellView 0 30 = Inr s' \<and> onScrollHorizontal s' 5 30 = Inr s')"
proof -
  have z: "lastScrollTop oneCellView = 0"
    by (simp add: oneCellView_def newListView_def)
  have "\<not> isl (onScroll oneCellView 30 0)"
    by code_simp
  then obtain s1 where s1: "onScroll oneCellView 30 0 = Inr s1"
    by (cases "onScroll oneCellView 30 0") auto
  have "\<not> isl (onScrollHorizontal oneCellView 0 30)"
    by code_simp
  then obtain s2 where s2: "onScrollHorizontal oneCellView 0 30 = Inr s2"
    by (cases "onScrollHorizontal oneCellView 0 30") auto
  from onScroll_idempotent[of oneCellView 0 7 oneCellView 7]
       onScroll_idempotent[of oneCellView 7 0 oneCellView 7]
       onScroll_idempotent[of oneCellView 30 0 s1 5]
       onScroll_idempotent[of oneCellView 0 30 s2 _ 5] z s1 s2
  show ?thesis by auto
qed

text \<open>
  C10. A scroll event that keeps the offset of the primary axis, whatever its offset on
  the cross axis, adds no call of the caller's \<^verbatim>\<open>onScroll\<close>; an event that
  changes the primary offset, once processed, adds exactly one call with both offsets.
\<close>

theorem cross_axis_scroll_dropped:
  "(lastScrollTop s = scrollTop \<longrightarrow>
      (\<exists>s'. onScroll s scrollTop scrollLeft = Inr s' \<and> onScrollCalls s' = onScrollCalls s)) \<and>
   (lastScrollTop s = scrollLeft \<longrightarrow>
      (\<exists>s'. onScrollHorizontal s scrollTop scrollLeft = Inr s'
            \<and> onScrollCalls s' = onScrollCalls s)) \<and>
   (lastScrollTop s \<noteq> scrollTop \<and> hasOnScroll (props s)
      \<and> onScroll s scrollTop scrollLeft = Inr s' \<longrightarrow>
      onScrollCalls s' = onScrollCalls s @ [(scrollTop, scrollLeft)]) \<and>
   (lastScrollTop s \<noteq> scrollLeft \<and> hasOnScroll (props s)
      \<and> onScrollHorizontal s scrollTop scrollLeft = Inr s' \<longrightarrow>
      onScrollCalls s' = onScrollCalls s @ [(scrollTop, scrollLeft)])"
proof -
  have a: "onScrollCalls s' = onScrollCalls s @ [(scrollTop, scrollLeft)]"
    if "lastScrollTop s \<noteq> scrollTop" "hasOnScroll (props s)"
       "onScroll s scrollTop scrollLeft = Inr s'"
  proof -
    from that obtain s4 where
      r: "recomputeAndReconcile (s\<lparr>lastScrollTop := scrollTop\<rparr>) = Inr s4"
      and s': "s' = (if hasOnScroll (props s4)
                     then s4\<lparr>onScrollCalls := onScrollCalls s4 @ [(scrollTop, scrollLeft)]\<rparr>
                     else s4)"
      by (auto simp: onScroll_unfold split: sum.splits)
    from recomputeAndReconcile_untouched(1)[OF r] s' that(2) show ?thesis
      by (simp add: untouched_def)
  qed
  have b: "onScrollCalls s' = onScrollCalls s @ [(scrollTop, scrollLeft)]"
    if "lastScrollTop s \<noteq> scrollLeft" "hasOnScroll (props s)"
       "onScrollHorizontal s scrollTop scrollLeft = Inr s'"
  proof -
    from that obtain s4 where
      r: "recomputeAndReconcile (s\<lparr>lastScrollTop := scrollLeft\<rparr>) = Inr s4"
      and s': "s' = (if hasOnScroll (props s4)
                     then s4\<lparr>onScrollCalls := onScrollCalls s4 @ [(scrollTop, scrollLeft)]\<rparr>
                     else s4)"
      by (auto simp: onScrollHorizontal_unfold split: sum.splits)
    from recomputeAndReconcile_untouched(1)[OF r] s' that(2) show ?thesis
      by (simp add: untouched_def)
  qed
  from a b show ?thesis
    by (auto simp: onScroll_unfold onScrollHorizontal_unfold)
qed

theorem cross_axis_scroll_dropped_witness:
  "hasOnScroll (props oneCellView) \<and>
   (\<exists>s'. onScroll oneCellView 0 7 = Inr s' \<and> onScrollCalls s' = []) \<and>
   (\<exists>s'. onScrollHorizontal oneCellView 7 0 = Inr s' \<and> onScrollCalls s' = []) \<and>
   (\<exists>s'. onScroll oneCellView 30 7 = Inr s' \<and> onScrollCalls s' = [(30, 7)])"
proof -
  have z: "lastScrollTop oneCellView = 0" "hasOnScroll (props oneCellView)"
    "onScrollCalls oneCellView = []"
    by (simp_all add: oneCellView_def newListView_def exampleProps_def)
  have "\<not> isl (onScroll oneCellView 30 7)"
    by code_simp
  then obtain s1 where s1: "onScroll oneCellView 30 7 = Inr s1"
    by (cases "onScroll oneCellView 30 7") auto
  from cross_axis_scroll_dropped[of oneCellView 0 7 s1]
       cross_axis_scroll_dropped[of oneCellView 7 0 s1]
       cross_axis_scroll_dropped[of oneCellView 30 7 s1] z s1
  show ?thesis by auto
qed

subsection \<open>The counters of the render block\<close>

lemma onScroll_counters:
  assumes "onScroll s t l = Inr s'" and "countersAgree s (itemList (props s))"
  shows "countersAgree s' (itemList (props s'))"
proof (cases "lastScrollTop s = t")
  case True
  with assms show ?thesis by (simp add: onScroll_unfold)
next
  case False
  with assms(1) obtain s4 where r: "recomputeAndReconcile (s\<lparr>lastScrollTop := t\<rparr>) = Inr s4"
    and s': "s' = (if hasOnScroll (props s4)
                   then s4\<lparr>onScrollCalls := onScrollCalls s4 @ [(t, l)]\<rparr> else s4)"
    by (auto simp: onScroll_unfold split: sum.splits)
  from assms(2) have "countersAgree (s\<lparr>lastScrollTop := t\<rparr>) (itemList (props (s\<lparr>lastScrollTop := t\<rparr>)))"
    by (simp add: countersAgree_def)
  from recomputeAndReconcile_untouched(2)[OF r this] s' show ?thesis
    by (simp add: countersAgree_def)
qed

lemma onLayoutContainer_counters:
  assumes "onLayoutContainer s w h = Inr s'" and "countersAgree s (itemList (props s))"
  shows "countersAgree s' (itemList (props s'))"
proof -
  define s1 where "s1 = (if (if padding (props s) \<noteq> 0 then w - padding (props s) else w)
                              \<noteq> layoutWidth s
     then resizeAllItems (s\<lparr>layoutWidth :=
            (if padding (props s) \<noteq> 0 then w - padding (props s) else w)\<rparr>) else s)"
  have eq: "onLayoutContainer s w h =
     (if \<not> isMounted s then Inr s
      else if h \<noteq> layoutHeight s1 then recomputeAndReconcile (s1\<lparr>layoutHeight := h\<rparr>)
      else Inr s1)"
    unfolding onLayoutContainer_def recomputeAndReconcile_def Let_def s1_def by simp
  have c1: "countersAgree s1 (itemList (props s1))"
    using assms(2) by (simp add: s1_def countersAgree_def resizeAllItems_def)
  show ?thesis
  proof (cases "isMounted s \<and> h \<noteq> layoutHeight s1")
    case False
    with assms(1) have "s' = s \<or> s' = s1"
      by (auto simp: eq split: if_splits)
    with c1 assms(2) show ?thesis by auto
  next
    case True
    with assms(1) have r: "recomputeAndReconcile (s1\<lparr>layoutHeight := h\<rparr>) = Inr s'"
      by (simp add: eq)
    from c1 have "countersAgree (s1\<lparr>layoutHeight := h\<rparr>)
                    (itemList (props (s1\<lparr>layoutHeight := h\<rparr>)))"
      by (simp add: countersAgree_def)
    from recomputeAndReconcile_untouched(2)[OF r this] show ?thesis .
  qed
qed

lemma settle_counters:
  assumes "settle s = Inr s'" and "countersAgree s (itemList (props s))"
  shows "countersAgree s' (itemList (props s'))"
proof (cases "isMounted s")
  case False
  with assms show ?thesis by (simp add: settle_def)
next
  case True
  with assms(1) obtain s3 where r: "recomputeAndReconcile s = Inr s3"
    and s': "s' = setFocusIfNeeded s3"
    by (auto simp: settle_def recomputeAndReconcile_def Let_def split: sum.splits)
  from recomputeAndReconcile_untouched(2)[OF r assms(2)] s' show ?thesis
    by (simp add: countersAgree_def setFocusIfNeeded_def Let_def split: option.splits)
qed

lemma measuredInBlock_counters:
  assumes "measuredInBlock s k h i old = Inr r"
  shows "props (fst r) = props s \<and> itemsAboveRenderBlock (fst r) = itemsAboveRenderBlock s \<and>
         itemsInRenderBlock (fst r) = itemsInRenderBlock s \<and>
         itemsBelowRenderBlock (fst r) = itemsBelowRenderBlock s"
  using assms
  by (auto simp: measuredInBlock_def Let_def split: if_splits sum.splits)

lemma afterMeasurement_counters:
  assumes "afterMeasurement s b = Inr s'" and "countersAgree s (itemList (props s))"
  shows "countersAgree s' (itemList (props s'))"
proof (cases b)
  case True
  with assms(1) have "recomputeAndReconcile s = Inr s'"
    by (simp add: afterMeasurement_def recomputeAndReconcile_def split: sum.splits)
  from recomputeAndReconcile_untouched(2)[OF this assms(2)] show ?thesis .
next
  case False
  with assms(1) have "reconcileCorrections s (props s) = Inr s'"
    by (simp add: afterMeasurement_def)
  from reconcileCorrections_settled[OF this] assms(2) show ?thesis
    by (simp add: settled_def untouched_def countersAgree_def)
qed

lemma onLayoutItem_cases:
  assumes "onLayoutItem s k h = Inr s'"
  obtains (ignored) "s' = s"
  | (culled) i it where "isMounted s" "itemMap s k = Some i"
      "itemAt (itemList (props s)) (int i) = Some it" "measureHeight it"
      "int i < itemsAboveRenderBlock s \<or> itemsAboveRenderBlock s + itemsInRenderBlock s \<le> int i"
      "s' = s\<lparr>heightCache := (heightCache s)(k \<mapsto> h)\<rparr>"
  | (measured) i it r where "isMounted s" "itemMap s k = Some i"
      "itemAt (itemList (props s)) (int i) = Some it" "measureHeight it"
      "itemsAboveRenderBlock s \<le> int i" "int i < itemsAboveRenderBlock s + itemsInRenderBlock s"
      "measuredInBlock (s\<lparr>heightCache := (heightCache s)(k \<mapsto> h)\<rparr>) k h i
         (getHeightOfItem s (Some it)) = Inr r"
      "afterMeasurement (fst r) (snd r) = Inr s'"
proof (cases "isMounted s")
  case False
  with assms have "s' = s" by (simp add: onLayoutItem_def)
  then show ?thesis by (rule ignored)
next
  case m: True
  show ?thesis
  proof (cases "itemMap s k")
    case None
    with assms m have "s' = s" by (simp add: onLayoutItem_def)
    then show ?thesis by (rule ignored)
  next
    case (Some i)
    show ?thesis
    proof (cases "itemAt (itemList (props s)) (int i)")
      case None
      with assms m Some show ?thesis by (simp add: onLayoutItem_def)
    next
      case it: (Some it)
      show ?thesis
      proof (cases "measureHeight it")
        case False
        with assms m Some it have "s' = s" by (simp add: onLayoutItem_def)
        then show ?thesis by (rule ignored)
      next
        case mh: True
        show ?thesis
        proof (cases "int i < itemsAboveRenderBlock s
                        \<or> itemsAboveRenderBlock s + itemsInRenderBlock s \<le> int i")
          case True
          with assms m Some it mh have "s' = s\<lparr>heightCache := (heightCache s)(k \<mapsto> h)\<rparr>"
            by (simp add: onLayoutItem_def Let_def)
          with m Some it mh True show ?thesis by (rule culled)
        next
          case False
          with assms m Some it mh obtain r where
            "measuredInBlock (s\<lparr>heightCache := (heightCache s)(k \<mapsto> h)\<rparr>) k h i
               (getHeightOfItem s (Some it)) = Inr r"
            "afterMeasurement (fst r) (snd r) = Inr s'"
            by (simp add: onLayoutItem_def Let_def split: sum.splits)
          with m Some it mh False show ?thesis by (intro measured) auto
        qed
      qed
    qed
  qed
qed

lemma onLayoutItem_counters:
  assumes "onLayoutItem s k h = Inr s'" and "countersAgree s (itemList (props s))"
  shows "countersAgree s' (itemList (props s'))"
  using assms(1)
proof (cases rule: onLayoutItem_cases)
  case ignored
  with assms(2) show ?thesis by simp
next
  case (culled i it)
  with assms(2) show ?thesis by (simp add: countersAgree_def)
next
  case (measured i it r)
  from measuredInBlock_counters[OF measured(7)] assms(2)
  have "countersAgree (fst r) (itemList (props (fst r)))"
    by (simp add: countersAgree_def)
  from afterMeasurement_counters[OF measured(8) this] show ?thesis .
qed

lemma updateStateFromProps_cases:
  assumes "updateStateFromProps s p b = Inr s'"
  obtains (changed) s1 s2 s3 where "b \<or> itemList (props s) \<noteq> itemList p"
      "handleItemListChange s1 p = Inr s2" "calcNewRenderedItemState s2 p = Inr s3"
      "s' = renderIfDirty s3"
  | (same) s1 where "\<not> b" "itemList (props s) = itemList p" "props s1 = props s"
      "itemsAboveRenderBlock s1 = itemsAboveRenderBlock s"
      "itemsInRenderBlock s1 = itemsInRenderBlock s"
      "itemsBelowRenderBlock s1 = itemsBelowRenderBlock s" "s' = renderIfDirty s1"
proof -
  define s1 where "s1 = (if b \<and> skipRenderIfItemUnchanged p then
                  s\<lparr>renderOverdrawFactor := 5, minOverdrawAmount := 2048,
                    maxOverdrawAmount := 4096, cullFraction := 6, minCullAmount := 3072\<rparr>
                else s)"
  have p1: "props s1 = props s" "itemsAboveRenderBlock s1 = itemsAboveRenderBlock s"
      "itemsInRenderBlock s1 = itemsInRenderBlock s"
      "itemsBelowRenderBlock s1 = itemsBelowRenderBlock s"
    by (simp_all add: s1_def)
  have eq: "updateStateFromProps s p b =
     (case (if b \<or> itemList (props s1) \<noteq> itemList p then
                 (case handleItemListChange s1 p of
                    Inl e \<Rightarrow> Inl e
                  | Inr s2 \<Rightarrow> calcNewRenderedItemState s2 p)
               else Inr s1) of
           Inl e \<Rightarrow> Inl e
         | Inr s3 \<Rightarrow> Inr (renderIfDirty s3))"
    unfolding updateStateFromProps_def Let_def s1_def by (rule refl)
  show ?thesis
  proof (cases "b \<or> itemList (props s) \<noteq> itemList p")
    case True
    with assms p1(1) obtain s2 s3 where "handleItemListChange s1 p = Inr s2"
      "calcNewRenderedItemState s2 p = Inr s3" "s' = renderIfDirty s3"
      by (auto simp: eq split: sum.splits)
    with True show ?thesis by (rule changed)
  next
    case False
    with assms p1(1) have "s' = renderIfDirty s1" by (auto simp: eq)
    with False p1 show ?thesis by (intro same[of s1]) auto
  qed
qed

lemma updateStateFromProps_counters:
  assumes "updateStateFromProps s p b = Inr s'"
    and "b \<or> countersAgree s (itemList (props s))"
  shows "countersAgree s' (itemList p)"
  using assms(1)
proof (cases rule: updateStateFromProps_cases)
  case (changed s1 s2 s3)
  from calcNewRenderedItemState_counters[OF changed(3) handleItemListChange_counters[OF changed(2)]]
    settled_counters[OF renderIfDirty_settled, of s3] changed(4)
  show ?thesis by simp
next
  case (same s1)
  from same assms(2) have "countersAgree s1 (itemList p)"
    by (simp add: countersAgree_def)
  with settled_counters[OF renderIfDirty_settled, of s1] same(7) show ?thesis by simp
qed

lemma constructor_counters:
  assumes "constructor p = Inr s'"
  shows "countersAgree s' (itemList p)"
proof -
  from assms obtain s1 where u: "updateStateFromProps (newListView p) p True = Inr s1"
    and s': "s' = s1\<lparr>lastFocusedItemKey :=
                   (if \<exists>it \<in> set (itemList p). Some (key it) = initialSelectedKey p
                    then initialSelectedKey p else None)\<rparr>"
    by (auto simp: constructor_def split: sum.splits)
  from updateStateFromProps_counters[OF u] s' show ?thesis
    by (simp add: countersAgree_def)
qed

lemma receiveProps_counters:
  assumes "receiveProps s p = Inr s'" and "countersAgree s (itemList (props s))"
  shows "countersAgree s' (itemList (props s'))"
proof (cases "props s = p")
  case True
  with assms show ?thesis
    by (auto simp: receiveProps_def componentWillReceiveProps_def countersAgree_def)
next
  case False
  with assms(1) obtain s1 where u: "updateStateFromProps s p False = Inr s1"
    and s': "s' = s1\<lparr>props := p\<rparr>"
    by (auto simp: receiveProps_def componentWillReceiveProps_def split: sum.splits)
  from updateStateFromProps_counters[OF u] assms(2) s' show ?thesis
    by (simp add: countersAgree_def)
qed

text \<open>
  C1. The three counters of the render block add up to the length of the item list after
  a change of the list, unconditionally, and after the constructor; and every other pass
  (the recomputation with its culling and growth, new properties, a scroll, a measured
  item, a resized container, the settle pass) keeps that sum when it returns.
\<close>

theorem render_block_counters:
  "(handleItemListChange s p = Inr s' \<longrightarrow> countersAgree s' (itemList p)) \<and>
   (calcNewRenderedItemState s p = Inr s' \<and> countersAgree s (itemList p) \<longrightarrow>
      countersAgree s' (itemList p)) \<and>
   (constructor p = Inr s' \<longrightarrow> countersAgree s' (itemList p)) \<and>
   (receiveProps s p = Inr s' \<and> countersAgree s (itemList (props s)) \<longrightarrow>
      countersAgree s' (itemList (props s'))) \<and>
   (onScroll s scrollTop scrollLeft = Inr s' \<and> countersAgree s (itemList (props s)) \<longrightarrow>
      countersAgree s' (itemList (props s'))) \<and>
   (onLayoutItem s itemKey newHeight = Inr s' \<and> countersAgree s (itemList (props s)) \<longrightarrow>
      countersAgree s' (itemList (props s'))) \<and>
   (onLayoutContainer s width height' = Inr s' \<and> countersAgree s (itemList (props s)) \<longrightarrow>
      countersAgree s' (itemList (props s'))) \<and>
   (settle s = Inr s' \<and> countersAgree s (itemList (props s)) \<longrightarrow>
      countersAgree s' (itemList (props s')))"
proof (intro conjI impI)
  show "countersAgree s' (itemList p)" if "handleItemListChange s p = Inr s'"
    using that by (rule handleItemListChange_counters)
  show "countersAgree s' (itemList p)"
    if "calcNewRenderedItemState s p = Inr s' \<and> countersAgree s (itemList p)"
    using that by (auto intro: calcNewRenderedItemState_counters)
  show "countersAgree s' (itemList p)" if "constructor p = Inr s'"
    using that by (rule constructor_counters)
  show "countersAgree s' (itemList (props s'))"
    if "receiveProps s p = Inr s' \<and> countersAgree s (itemList (props s))"
    using that by (auto intro: receiveProps_counters)
  show "countersAgree s' (itemList (props s'))"
    if "onScroll s scrollTop scrollLeft = Inr s' \<and> countersAgree s (itemList (props s))"
    using that by (auto intro: onScroll_counters)
  show "countersAgree s' (itemList (props s'))"
    if "onLayoutItem s itemKey newHeight = Inr s' \<and> countersAgree s (itemList (props s))"
    using that by (auto intro: onLayoutItem_counters)
  show "countersAgree s' (itemList (props s'))"
    if "onLayoutContainer s width height' = Inr s' \<and> countersAgree s (itemList (props s))"
    using that by (auto intro: onLayoutContainer_counters)
  show "countersAgree s' (itemList (props s'))"
    if "settle s = Inr s' \<and> countersAgree s (itemList (props s))"
    using that by (auto intro: settle_counters)
qed

theorem render_block_counters_witness:
  "countersAgree oneCellView (itemList (props oneCellView)) \<and>
   (\<exists>s'. receiveProps oneCellView (exampleProps [''w'', ''x'', ''y'']) = Inr s' \<and>
         countersAgree s' (itemList (props s')) \<and> length (itemList (props s')) = 3) \<and>
   (\<exists>s'. onLayoutContainer oneCellView 300 40 = Inr s' \<and>
         countersAgree s' (itemList (props s')))"
proof -
  have c: "countersAgree oneCellView (itemList (props oneCellView))"
    by (simp add: countersAgree_def oneCellView_def newListView_def exampleProps_def)
  have "\<not> isl (receiveProps oneCellView (exampleProps [''w'', ''x'', ''y'']))"
    by code_simp
  then obtain s1 where s1: "receiveProps oneCellView (exampleProps [''w'', ''x'', ''y'']) = Inr s1"
    by (cases "receiveProps oneCellView (exampleProps [''w'', ''x'', ''y''])") auto
  have "\<not> isl (onLayoutContainer oneCellView 300 40)"
    by code_simp
  then obtain s2 where s2: "onLayoutContainer oneCellView 300 40 = Inr s2"
    by (cases "onLayoutContainer oneCellView 300 40") auto
  have l: "length (itemList (props s1)) = 3"
    using s1 by (auto simp: receiveProps_def exampleProps_def split: sum.splits)
  from render_block_counters[of oneCellView "exampleProps [''w'', ''x'', ''y'']" s1]
       render_block_counters[of oneCellView _ s2 _ _ _ _ 300 40] c s1 s2 l
  show ?thesis by auto
qed

subsection \<open>Flushing the pending adjustment\<close>

lemma itemAt_Some_iff: "itemAt xs i = Some x \<longleftrightarrow> 0 \<le> i \<and> i < int (length xs) \<and> xs ! nat i = x"
  by (auto simp: itemAt_def)

lemma distinct_keys_index:
  assumes "distinct (map key xs)" "itemAt xs i = Some a" "itemAt xs j = Some b" "key a = key b"
  shows "i = j"
proof -
  from assms(2,3) have r: "nat i < length (map key xs)" "nat j < length (map key xs)"
    and nn: "0 \<le> i" "0 \<le> j"
    by (auto simp: itemAt_Some_iff)
  from assms(2,3,4) have "map key xs ! nat i = map key xs ! nat j"
    by (auto simp: itemAt_Some_iff)
  with nth_eq_iff_index_eq[OF assms(1) r] have "nat i = nat j" by blast
  with nn show ?thesis by linarith
qed

definition shiftedCells :: "listView \<Rightarrow> props \<Rightarrow> int list \<Rightarrow> rat \<Rightarrow> string \<rightharpoonup> cell" where
  "shiftedCells s p is d k =
     (if \<exists>i\<in>set is. map_option key (itemAt (itemList p) i) = Some k
      then map_option (\<lambda>c. c\<lparr>top_cell := top_cell c - d\<rparr>) (activeCells s k)
      else activeCells s k)"

lemma shiftCells_shift:
  assumes "distinct (map key (itemList p))" and "distinct is"
    and "\<forall>i\<in>set is. \<exists>it. itemAt (itemList p) i = Some it \<and> activeCells s (key it) \<noteq> None"
  shows "shiftCells s p is
           = Inr (s\<lparr>activeCells := shiftedCells s p is (heightAboveRenderAdjustment s)\<rparr>)"
  using assms(2,3)
proof (induction "is" arbitrary: s)
  case Nil
  have "shiftedCells s p [] (heightAboveRenderAdjustment s) = activeCells s"
    by (rule ext) (simp add: shiftedCells_def)
  then show ?case by simp
next
  case (Cons i "is")
  from Cons.prems(2) obtain it :: item and c :: cell where
    it: "itemAt (itemList p) i = Some it" and c: "activeCells s (key it) = Some c" by auto
  let ?d = "heightAboveRenderAdjustment s"
  let ?c' = "c\<lparr>top_cell := top_cell c - ?d\<rparr>"
  let ?s1 = "s\<lparr>activeCells := (activeCells s)(key it \<mapsto> ?c')\<rparr>"
  have step: "setCellTopAndVisibility s (key it) (isVisible c) (top_cell c - ?d) = Inr ?s1"
    using c by (simp add: setCellTopAndVisibility_def)
  have pre: "\<forall>j\<in>set is. \<exists>it'. itemAt (itemList p) j = Some it' \<and> activeCells ?s1 (key it') \<noteq> None"
    using Cons.prems(2) by auto
  from Cons.prems(1) have d: "distinct is" "i \<notin> set is" by auto
  have r: "shiftCells ?s1 p is
             = Inr (?s1\<lparr>activeCells := shiftedCells ?s1 p is (heightAboveRenderAdjustment ?s1)\<rparr>)"
    by (rule Cons.IH[OF d(1) pre])
  have notin: "\<not> (\<exists>j\<in>set is. map_option key (itemAt (itemList p) j) = Some (key it))"
  proof
    assume "\<exists>j\<in>set is. map_option key (itemAt (itemList p) j) = Some (key it)"
    then obtain j and b :: item where
      j: "j \<in> set is" "itemAt (itemList p) j = Some b" "key b = key it"
      by auto
    from distinct_keys_index[OF assms(1) j(2) it j(3)] j(1) d(2) show False by simp
  qed
  have "shiftedCells ?s1 p is ?d k = shiftedCells s p (i # is) ?d k" for k
  proof (cases "k = key it")
    case True
    with notin it c show ?thesis by (auto simp: shiftedCells_def)
  next
    case False
    with it show ?thesis by (auto simp: shiftedCells_def)
  qed
  then have eq: "shiftedCells ?s1 p is ?d = shiftedCells s p (i # is) ?d" by (rule ext)
  have "shiftCells s p (i # is) = shiftCells ?s1 p is"
    using it c step by simp
  also have "\<dots> = Inr (?s1\<lparr>activeCells := shiftedCells ?s1 p is ?d\<rparr>)"
    using r by simp
  also have "\<dots> = Inr (s\<lparr>activeCells := shiftedCells s p (i # is) ?d\<rparr>)"
    unfolding eq by simp
  finally show ?case .
qed

text \<open>
  C5. Let no animation be pending and the pending adjustment be non-zero; let the keys of
  the list be distinct and every item of the render block have an active cell. Then
  \<^verbatim>\<open>_reconcileCorrections\<close> returns normally, the container height has decreased by
  the adjustment, the cell of every item of the render block has moved up by the
  adjustment, and the adjustment is zero. The scroll offset plays no part, so the same
  holds at offset 0.
\<close>

theorem reconcileCorrections_flush:
  assumes "pendingAnimations s = {}"
    and "heightAboveRenderAdjustment s \<noteq> 0"
    and "distinct (map key (itemList p))"
    and "\<forall>i\<in>{itemsAboveRenderBlock s..<itemsAboveRenderBlock s + itemsInRenderBlock s}.
           \<exists>it. itemAt (itemList p) i = Some it \<and> activeCells s (key it) \<noteq> None"
  shows "\<exists>s'. reconcileCorrections s p = Inr s' \<and>
     containerHeight s' = containerHeight s - heightAboveRenderAdjustment s \<and>
     heightAboveRenderAdjustment s' = 0 \<and>
     (\<forall>i\<in>{itemsAboveRenderBlock s..<itemsAboveRenderBlock s + itemsInRenderBlock s}.
        \<exists>it c. itemAt (itemList p) i = Some it \<and> activeCells s (key it) = Some c \<and>
          activeCells s' (key it)
            = Some (c\<lparr>top_cell := top_cell c - heightAboveRenderAdjustment s\<rparr>))"
proof -
  let ?d = "heightAboveRenderAdjustment s"
  let ?s1 = "s\<lparr>containerHeight := containerHeight s - ?d\<rparr>"
  let ?is = "[itemsAboveRenderBlock s..itemsAboveRenderBlock s + itemsInRenderBlock s - 1]"
  let ?s' = "?s1\<lparr>activeCells := shiftedCells ?s1 p ?is ?d, heightAboveRenderAdjustment := 0\<rparr>"
  have set_is: "set ?is = {itemsAboveRenderBlock s..<itemsAboveRenderBlock s + itemsInRenderBlock s}"
    by auto
  have pre: "\<forall>i\<in>set ?is. \<exists>it. itemAt (itemList p) i = Some it \<and> activeCells ?s1 (key it) \<noteq> None"
    using assms(4) unfolding set_is by simp
  have r: "shiftCells ?s1 p ?is = Inr (?s1\<lparr>activeCells := shiftedCells ?s1 p ?is ?d\<rparr>)"
    using shiftCells_shift[OF assms(3) distinct_upto pre] by simp
  have run: "reconcileCorrections s p = Inr ?s'"
    using assms(1,2) r by (simp add: reconcileCorrections_def Let_def)
  have cells: "\<exists>it c. itemAt (itemList p) i = Some it \<and> activeCells s (key it) = Some c \<and>
          activeCells ?s' (key it) = Some (c\<lparr>top_cell := top_cell c - ?d\<rparr>)"
    if "i \<in> {itemsAboveRenderBlock s..<itemsAboveRenderBlock s + itemsInRenderBlock s}" for i
  proof -
    from assms(4)[rule_format, OF that] obtain it :: item and c :: cell where
      it: "itemAt (itemList p) i = Some it" and c: "activeCells s (key it) = Some c" by auto
    from that it have "\<exists>j\<in>set ?is. map_option key (itemAt (itemList p) j) = Some (key it)"
      unfolding set_is by (intro bexI[of _ i]) auto
    then have "activeCells ?s' (key it) = Some (c\<lparr>top_cell := top_cell c - ?d\<rparr>)"
      using c by (simp add: shiftedCells_def)
    with it c show ?thesis by blast
  qed
  show ?thesis
  proof (intro exI conjI)
    show "reconcileCorrections s p = Inr ?s'" by (rule run)
    show "containerHeight ?s' = containerHeight s - ?d" by simp
    show "heightAboveRenderAdjustment ?s' = 0" by simp
    show "\<forall>i\<in>{itemsAboveRenderBlock s..<itemsAboveRenderBlock s + itemsInRenderBlock s}.
        \<exists>it c. itemAt (itemList p) i = Some it \<and> activeCells s (key it) = Some c \<and>
          activeCells ?s' (key it) = Some (c\<lparr>top_cell := top_cell c - ?d\<rparr>)"
      using cells by blast
  qed
qed

theorem reconcileCorrections_flush_witness:
  "lastScrollTop adjustedView = 0 \<and>
   (\<exists>s'. reconcileCorrections adjustedView (props adjustedView) = Inr s' \<and>
      containerHeight s' = 110 \<and> heightAboveRenderAdjustment s' = 0 \<and>
      map_option top_cell (activeCells s' ''x'') = Some (- 10))"
proof -
  have h: "pendingAnimations adjustedView = {}" "heightAboveRenderAdjustment adjustedView \<noteq> 0"
    "distinct (map key (itemList (props adjustedView)))"
    by (simp_all add: adjustedView_def oneCellView_def newListView_def exampleProps_def rowItem_def)
  have r: "{itemsAboveRenderBlock adjustedView..<
            itemsAboveRenderBlock adjustedView + itemsInRenderBlock adjustedView} = {0}"
    by (auto simp: adjustedView_def oneCellView_def newListView_def)
  have b: "\<forall>i\<in>{itemsAboveRenderBlock adjustedView..<
                itemsAboveRenderBlock adjustedView + itemsInRenderBlock adjustedView}.
           \<exists>it. itemAt (itemList (props adjustedView)) i = Some it \<and>
                activeCells adjustedView (key it) \<noteq> None"
    unfolding r
    by (simp add: adjustedView_def oneCellView_def newListView_def exampleProps_def rowItem_def
          itemAt_def)
  have v: "containerHeight adjustedView = 120" "heightAboveRenderAdjustment adjustedView = 10"
    "lastScrollTop adjustedView = 0"
    "itemAt (itemList (props adjustedView)) 0 = Some (rowItem ''x'')"
    "activeCells adjustedView ''x'' = Some (rowCell 1 ''x'')"
    by (simp_all add: adjustedView_def oneCellView_def newListView_def exampleProps_def itemAt_def)
  from reconcileCorrections_flush[OF h b] obtain s' where
    s': "reconcileCorrections adjustedView (props adjustedView) = Inr s'"
      "containerHeight s' = containerHeight adjustedView - heightAboveRenderAdjustment adjustedView"
      "heightAboveRenderAdjustment s' = 0"
    and c: "\<forall>i\<in>{0}. \<exists>it c. itemAt (itemList (props adjustedView)) i = Some it \<and>
          activeCells adjustedView (key it) = Some c \<and>
          activeCells s' (key it)
            = Some (c\<lparr>top_cell := top_cell c - heightAboveRenderAdjustment adjustedView\<rparr>)"
    unfolding r by blast
  from c v have "map_option top_cell (activeCells s' ''x'') = Some (- 10)"
    by (auto simp: rowItem_def rowCell_def)
  with s' v show ?thesis by auto
qed

subsection \<open>The height of the render block\<close>

text \<open>
  \<open>blockHeightAgrees\<close> says that the cached height of the render block is the sum of the
  heights of its items, as \<^verbatim>\<open>_calcHeightOfItems\<close> computes it, and
  \<open>keepsBlockHeight\<close> that a pass keeps this and does not write the height cache.
  \<open>heightWith\<close> and \<open>sumHeights\<close> are \<open>getHeightOfItem\<close> and \<open>calcHeightOfItems\<close> as
  functions of the cache alone.
\<close>

definition blockHeightAgrees :: "listView \<Rightarrow> props \<Rightarrow> bool" where
  "blockHeightAgrees s p \<longleftrightarrow>
     0 \<le> itemsInRenderBlock s \<and>
     heightOfRenderBlock s =
       calcHeightOfItems s p (itemsAboveRenderBlock s)
         (itemsAboveRenderBlock s + itemsInRenderBlock s - 1)"

definition keepsBlockHeight :: "props \<Rightarrow> listView \<Rightarrow> listView \<Rightarrow> bool" where
  "keepsBlockHeight p s s' \<longleftrightarrow>
     heightCache s' = heightCache s \<and> (blockHeightAgrees s p \<longrightarrow> blockHeightAgrees s' p)"

definition heightWith :: "(string \<rightharpoonup> rat) \<Rightarrow> item option \<Rightarrow> rat" where
  "heightWith cache x =
     (case x of
        None \<Rightarrow> 0
      | Some it \<Rightarrow>
          if \<not> measureHeight it then height it
          else (case cache (key it) of Some cachedHeight \<Rightarrow> cachedHeight | None \<Rightarrow> height it))"

definition sumHeights :: "(string \<rightharpoonup> rat) \<Rightarrow> props \<Rightarrow> int \<Rightarrow> int \<Rightarrow> rat" where
  "sumHeights cache p a b = sum_list (map (\<lambda>i. heightWith cache (itemAt (itemList p) i)) [a..b])"

lemma getHeightOfItem_heightWith: "getHeightOfItem s x = heightWith (heightCache s) x"
  by (simp add: getHeightOfItem_def heightWith_def)

lemma calcHeightOfItems_sumHeights: "calcHeightOfItems s p a b = sumHeights (heightCache s) p a b"
  by (simp add: calcHeightOfItems_def sumHeights_def getHeightOfItem_heightWith)

lemma blockHeightAgrees_sumHeights:
  "blockHeightAgrees s p \<longleftrightarrow>
     0 \<le> itemsInRenderBlock s \<and>
     heightOfRenderBlock s =
       sumHeights (heightCache s) p (itemsAboveRenderBlock s)
         (itemsAboveRenderBlock s + itemsInRenderBlock s - 1)"
  by (simp add: blockHeightAgrees_def calcHeightOfItems_sumHeights)

lemma sumHeights_first:
  "a \<le> b \<Longrightarrow> sumHeights c p a b = heightWith c (itemAt (itemList p) a) + sumHeights c p (a + 1) b"
  by (simp add: sumHeights_def upto_rec1[of a b])

lemma sumHeights_last:
  "a \<le> b \<Longrightarrow> sumHeights c p a b = sumHeights c p a (b - 1) + heightWith c (itemAt (itemList p) b)"
  by (simp add: sumHeights_def upto_rec2[of a b])

lemma sumHeights_empty: "b < a \<Longrightarrow> sumHeights c p a b = 0"
  by (simp add: sumHeights_def)

lemma keepsBlockHeight_refl: "keepsBlockHeight p s s"
  by (simp add: keepsBlockHeight_def)

lemma keepsBlockHeight_trans:
  "keepsBlockHeight p s s1 \<Longrightarrow> keepsBlockHeight p s1 s2 \<Longrightarrow> keepsBlockHeight p s s2"
  by (simp add: keepsBlockHeight_def)

lemma keepsBlockHeight_same:
  assumes "heightCache s' = heightCache s" "itemsAboveRenderBlock s' = itemsAboveRenderBlock s"
    "itemsInRenderBlock s' = itemsInRenderBlock s" "heightOfRenderBlock s' = heightOfRenderBlock s"
  shows "keepsBlockHeight p s s'"
  using assms by (simp add: keepsBlockHeight_def blockHeightAgrees_sumHeights)

lemma setCellTopAndVisibility_keepsBlockHeight:
  "setCellTopAndVisibility s k v t = Inr s' \<Longrightarrow> keepsBlockHeight p s s'"
  by (rule keepsBlockHeight_same)
     (auto simp: setCellTopAndVisibility_def assert_def split: option.splits)

lemma recycleCell_keepsBlockHeight: "recycleCell s k = Inr s' \<Longrightarrow> keepsBlockHeight p s s'"
  by (rule keepsBlockHeight_same)
     (auto simp: recycleCell_def setCellTopAndVisibility_def assert_def Let_def
           split: option.splits if_splits)

lemma allocateCell_keepsBlockHeight:
  "allocateCell s k t i c h y v = Inr s' \<Longrightarrow> keepsBlockHeight p s s'"
  by (rule keepsBlockHeight_same)
     (auto simp: allocateCell_def assert_def Let_def split: option.splits if_splits prod.splits)

lemma cullTop_keepsBlockHeight: "cullTop s p l = Inr s' \<Longrightarrow> keepsBlockHeight p s s'"
proof (erule cullTop_rule[where R = "keepsBlockHeight p"])
  show "keepsBlockHeight p s s" for s by (rule keepsBlockHeight_refl)
next
  fix s it s1 s'
  assume pos: "0 < itemsInRenderBlock s"
    and it: "itemAt (itemList p) (itemsAboveRenderBlock s) = Some it"
    and r: "recycleCell
          (s\<lparr>itemsInRenderBlock := itemsInRenderBlock s - 1,
             heightOfRenderBlock := heightOfRenderBlock s - getHeightOfItem s (Some it),
             itemsAboveRenderBlock := itemsAboveRenderBlock s + 1,
             heightAboveRenderBlock := heightAboveRenderBlock s + getHeightOfItem s (Some it)\<rparr>)
          (key it) = Inr s1" (is "recycleCell ?u _ = _") and rest: "keepsBlockHeight p s1 s'"
  from pos it sumHeights_first[of "itemsAboveRenderBlock s"
         "itemsAboveRenderBlock s + itemsInRenderBlock s - 1" "heightCache s" p]
  have "keepsBlockHeight p s ?u"
    by (simp add: keepsBlockHeight_def blockHeightAgrees_sumHeights getHeightOfItem_heightWith)
  from keepsBlockHeight_trans[OF keepsBlockHeight_trans[OF this recycleCell_keepsBlockHeight[OF r]] rest]
  show "keepsBlockHeight p s s'" .
qed

lemma cullBottom_keepsBlockHeight: "cullBottom s p l = Inr s' \<Longrightarrow> keepsBlockHeight p s s'"
proof (erule cullBottom_rule[where R = "keepsBlockHeight p"])
  show "keepsBlockHeight p s s" for s by (rule keepsBlockHeight_refl)
next
  fix s it s1 s'
  assume pos: "0 < itemsInRenderBlock s"
    and it: "itemAt (itemList p) (itemsAboveRenderBlock s + itemsInRenderBlock s - 1) = Some it"
    and r: "recycleCell
          (s\<lparr>itemsInRenderBlock := itemsInRenderBlock s - 1,
             heightOfRenderBlock := heightOfRenderBlock s - getHeightOfItem s (Some it),
             itemsBelowRenderBlock := itemsBelowRenderBlock s + 1,
             heightBelowRenderBlock := heightBelowRenderBlock s + getHeightOfItem s (Some it)\<rparr>)
          (key it) = Inr s1" (is "recycleCell ?u _ = _") and rest: "keepsBlockHeight p s1 s'"
  from pos it sumHeights_last[of "itemsAboveRenderBlock s"
         "itemsAboveRenderBlock s + itemsInRenderBlock s - 1" "heightCache s" p]
  have "keepsBlockHeight p s ?u"
    by (simp add: keepsBlockHeight_def blockHeightAgrees_sumHeights getHeightOfItem_heightWith
          algebra_simps)
  from keepsBlockHeight_trans[OF keepsBlockHeight_trans[OF this recycleCell_keepsBlockHeight[OF r]] rest]
  show "keepsBlockHeight p s s'" .
qed

lemma buildItem_keepsBlockHeight:
  assumes "buildItem s p i a ys = Inr r"
    and "i = (if a then itemsAboveRenderBlock s - 1
              else itemsAboveRenderBlock s + itemsInRenderBlock s)"
  shows "keepsBlockHeight p s (fst r)"
proof -
  from assms(1) obtain it :: item where it: "itemAt (itemList p) i = Some it"
    by (auto simp: buildItem_def split: option.splits)
  let ?h = "getHeightOfItem s (Some it)"
  let ?s1 = "s\<lparr>itemsInRenderBlock := itemsInRenderBlock s + 1,
                heightOfRenderBlock := heightOfRenderBlock s + ?h\<rparr>"
  let ?s2 = "if a then ?s1\<lparr>itemsAboveRenderBlock := itemsAboveRenderBlock ?s1 - 1,
                            heightAboveRenderBlock := heightAboveRenderBlock ?s1 - ?h\<rparr>
             else ?s1\<lparr>itemsBelowRenderBlock := itemsBelowRenderBlock ?s1 - 1,
                       heightBelowRenderBlock := heightBelowRenderBlock ?s1 - ?h\<rparr>"
  let ?s3 = "if \<not> isItemHeightKnown s it
             then ?s2\<lparr>pendingMeasurements := insert (key it) (pendingMeasurements ?s2)\<rparr> else ?s2"
  from assms(1) it obtain y v where
    al: "allocateCell ?s3 (key it) (template it) (nat i) (\<not> measureHeight it) (height it) y v
           = Inr (fst r)"
    by (auto simp: buildItem_def Let_def split: sum.splits if_splits)
  have "keepsBlockHeight p s ?s3"
  proof (cases a)
    case True
    with assms(2) it
      sumHeights_first[of "itemsAboveRenderBlock s - 1"
         "itemsAboveRenderBlock s + itemsInRenderBlock s - 1" "heightCache s" p]
    show ?thesis
      by (simp add: keepsBlockHeight_def blockHeightAgrees_sumHeights getHeightOfItem_heightWith)
  next
    case False
    with assms(2) it
      sumHeights_last[of "itemsAboveRenderBlock s"
         "itemsAboveRenderBlock s + itemsInRenderBlock s" "heightCache s" p]
    show ?thesis
      by (simp add: keepsBlockHeight_def blockHeightAgrees_sumHeights getHeightOfItem_heightWith)
  qed
  from keepsBlockHeight_trans[OF this allocateCell_keepsBlockHeight[OF al]] show ?thesis .
qed

lemma growBottom_keepsBlockHeight:
  "growBottom s p l ys = Inr r \<Longrightarrow> keepsBlockHeight p s (fst r)"
  by (erule growBottom_rule[where R = "keepsBlockHeight p"])
     (auto intro: keepsBlockHeight_refl keepsBlockHeight_trans dest: buildItem_keepsBlockHeight)

lemma growTop_keepsBlockHeight:
  "growTop s p l ys = Inr r \<Longrightarrow> keepsBlockHeight p s (fst r)"
  by (erule growTop_rule[where R = "keepsBlockHeight p"])
     (auto intro: keepsBlockHeight_refl keepsBlockHeight_trans dest: buildItem_keepsBlockHeight)

lemma findFirstItem_block:
  fixes p :: props
  assumes "findFirstItem s l xs i y = Inr s'"
  shows "heightCache s' = heightCache s \<and>
         (itemsInRenderBlock s' = 1 \<or> itemsInRenderBlock s' = itemsInRenderBlock s)"
  using assms
proof (induction xs arbitrary: i y)
  case Nil
  then show ?case by simp
next
  case (Cons x xs)
  show ?case
  proof (cases "l < y + getHeightOfItem s (Some x)")
    case False
    with Cons show ?thesis by (simp add: Let_def)
  next
    case True
    let ?s1 = "s\<lparr>itemsAboveRenderBlock := int i, itemsInRenderBlock := 1\<rparr>"
    from Cons.prems True obtain s2 where
      al: "allocateCell ?s1 (key x) (template x) i (\<not> measureHeight x) (height x)
             (y + getHeightOfItem s (Some x) - getHeightOfItem s (Some x)) (shouldShowItem ?s1 x)
             = Inr s2"
      and s': "s' = (if \<not> isItemHeightKnown s2 x
                     then s2\<lparr>pendingMeasurements := insert (key x) (pendingMeasurements s2)\<rparr>
                     else s2)"
      by (auto simp: Let_def split: sum.splits)
    from allocateCell_keepsBlockHeight[OF al, of p] allocateCell_counters[OF al] s'
    show ?thesis by (simp add: keepsBlockHeight_def)
  qed
qed

lemma startRenderBlock_blockHeight:
  assumes "startRenderBlock s p l = Inr s'" and "0 \<le> itemsInRenderBlock s"
  shows "heightCache s' = heightCache s \<and> blockHeightAgrees s' p"
proof -
  from assms(1) obtain s1 where
    f: "findFirstItem (s\<lparr>itemsAboveRenderBlock := 0\<rparr>) l (itemList p) 0
          (heightAboveRenderAdjustment s) = Inr s1"
    by (auto simp: startRenderBlock_def split: sum.splits)
  from findFirstItem_block[OF f] assms(2)
  have 1: "heightCache s1 = heightCache s" "0 \<le> itemsInRenderBlock s1" by auto
  from assms(1) f 1 show ?thesis
    by (auto simp: startRenderBlock_def Let_def blockHeightAgrees_sumHeights
          calcHeightOfItems_sumHeights)
qed

lemma positionCells_keepsBlockHeight:
  "positionCells s p is y = Inr r \<Longrightarrow> keepsBlockHeight p s (fst r)"
proof (induction "is" arbitrary: s y)
  case Nil
  then show ?case by (auto simp: keepsBlockHeight_refl)
next
  case (Cons i "is")
  from Cons.prems obtain it s1 where
    c: "setCellTopAndVisibility s (key it) (shouldShowItem s it) y = Inr s1"
    and rest: "positionCells s1 p is (y + getHeightOfItem s1 (Some it)) = Inr r"
    by (auto split: option.splits sum.splits)
  from keepsBlockHeight_trans[OF setCellTopAndVisibility_keepsBlockHeight[OF c] Cons.IH[OF rest]]
  show ?case .
qed

lemma popLoop_keepsBlockHeight: "popLoop s p is = Inr s' \<Longrightarrow> keepsBlockHeight p s s'"
proof (induction "is" arbitrary: s)
  case Nil
  then show ?case by (auto simp: keepsBlockHeight_refl)
next
  case (Cons i "is")
  from Cons.prems obtain it s1 and c :: cell where
    c: "setCellTopAndVisibility s (key it) (shouldShowItem s it) (top_cell c) = Inr s1"
    and rest: "popLoop s1 p is = Inr s'"
    by (auto split: option.splits sum.splits)
  from keepsBlockHeight_trans[OF setCellTopAndVisibility_keepsBlockHeight[OF c] Cons.IH[OF rest]]
  show ?case .
qed

lemma popInvisibleIntoView_keepsBlockHeight:
  assumes "popInvisibleIntoView s p = Inr s'"
  shows "keepsBlockHeight p s s'"
proof -
  have "keepsBlockHeight p s (s\<lparr>isInitialFillComplete := True\<rparr>)"
    by (rule keepsBlockHeight_same) simp_all
  from keepsBlockHeight_trans[OF this popLoop_keepsBlockHeight] assms show ?thesis
    by (simp add: popInvisibleIntoView_def)
qed

lemma componentDidRender_keepsBlockHeight: "keepsBlockHeight p s (componentDidRender s)"
  by (rule keepsBlockHeight_same) (simp_all add: componentDidRender_def)

lemma keepsBlockHeight_nonneg:
  "keepsBlockHeight p s s' \<Longrightarrow> blockHeightAgrees s p \<Longrightarrow> 0 \<le> itemsInRenderBlock s'"
  by (simp add: keepsBlockHeight_def blockHeightAgrees_def)

lemma calcNewRenderedItemState_keepsBlockHeight:
  assumes "calcNewRenderedItemState s p = Inr s'"
  shows "keepsBlockHeight p s s'"
proof (cases "layoutHeight s = 0 \<or> length (itemList p) = 0 \<or> 0 < card (pendingMeasurements s)")
  case True
  with assms have "s' = s" by (auto simp: calcNewRenderedItemState_def split: if_splits)
  then show ?thesis by (simp add: keepsBlockHeight_refl)
next
  case False
  let ?cullMargin = "max (layoutHeight s * cullFraction s) (minCullAmount s)"
  from assms False obtain s1 where
    s1: "cullTop s p (lastScrollTop s - ?cullMargin) = Inr s1"
    by (auto simp: calcNewRenderedItemState_def Let_def split: sum.splits)
  from assms False s1 obtain s2 where
    s2: "cullBottom s1 p (lastScrollTop s + layoutHeight s + ?cullMargin) = Inr s2"
    by (auto simp: calcNewRenderedItemState_def Let_def split: sum.splits)
  let ?renderMargin = "if isInitialFillComplete s2 then calcOverdrawAmount s2 else 0"
  let ?s3r = "if itemsInRenderBlock s2 = 0
      then startRenderBlock s2 p (lastScrollTop s2 - ?renderMargin) else Inr s2"
  from assms False s1 s2 obtain s3 where s3: "?s3r = Inr s3"
    by (auto simp: calcNewRenderedItemState_def Let_def split: sum.splits)
  from assms False s1 s2 s3 obtain r4 where
    r4: "positionCells s3 p [0..itemsInRenderBlock s3 - 1]
           (heightAboveRenderBlock s3 + heightAboveRenderAdjustment s3) = Inr r4"
    by (auto simp: calcNewRenderedItemState_def Let_def split: sum.splits)
  let ?ch = "max (heightAboveRenderAdjustment s3 + heightAboveRenderBlock s3
                    + heightOfRenderBlock s3 + heightBelowRenderBlock s3) (layoutHeight s3)"
  let ?s5 = "if ?ch \<noteq> containerHeight (fst r4)
     then (fst r4)\<lparr>containerHeight := ?ch\<rparr> else fst r4"
  from assms False s1 s2 s3 r4 obtain r6 where
    r6: "growBottom ?s5 p (lastScrollTop s2 + layoutHeight s2 + ?renderMargin)
           (heightAboveRenderBlock s3 + heightAboveRenderAdjustment s3, snd r4) = Inr r6"
    by (auto simp: calcNewRenderedItemState_def Let_def split: sum.splits)
  from assms False s1 s2 s3 r4 r6 obtain r7 where
    r7: "growTop (fst r6) p (lastScrollTop s2 - ?renderMargin) (snd r6) = Inr r7"
    by (auto simp: calcNewRenderedItemState_def Let_def split: sum.splits)
  from assms False s1 s2 s3 r4 r6 r7 have last:
    "(if \<not> isInitialFillComplete (fst r7) \<and> \<not> isRenderDirty (fst r7)
         \<and> card (pendingMeasurements (fst r7)) = 0
      then (case popInvisibleIntoView (fst r7) p of Inl e \<Rightarrow> Inl e
            | Inr s8 \<Rightarrow> Inr (componentDidRender s8))
      else Inr (fst r7)) = Inr s'"
    by (auto simp: calcNewRenderedItemState_def Let_def split: sum.splits)
  have a1: "keepsBlockHeight p s s1" by (rule cullTop_keepsBlockHeight[OF s1])
  have a2: "keepsBlockHeight p s1 s2" by (rule cullBottom_keepsBlockHeight[OF s2])
  have a3: "keepsBlockHeight p s2 s3"
  proof (cases "itemsInRenderBlock s2 = 0")
    case True
    with s3 have "startRenderBlock s2 p (lastScrollTop s2 - ?renderMargin) = Inr s3" by simp
    from startRenderBlock_blockHeight[OF this] True show ?thesis
      by (simp add: keepsBlockHeight_def)
  next
    case False
    with s3 show ?thesis by (simp add: keepsBlockHeight_refl)
  qed
  have a4: "keepsBlockHeight p s3 (fst r4)" by (rule positionCells_keepsBlockHeight[OF r4])
  have a5: "keepsBlockHeight p (fst r4) ?s5"
    by (rule keepsBlockHeight_same) simp_all
  have a6: "keepsBlockHeight p ?s5 (fst r6)" by (rule growBottom_keepsBlockHeight[OF r6])
  have a7: "keepsBlockHeight p (fst r6) (fst r7)" by (rule growTop_keepsBlockHeight[OF r7])
  have a8: "keepsBlockHeight p (fst r7) s'"
    using last
    by (auto simp: keepsBlockHeight_refl split: if_splits sum.splits
             intro: keepsBlockHeight_trans[OF popInvisibleIntoView_keepsBlockHeight
                                        componentDidRender_keepsBlockHeight])
  from a1 a2 a3 a4 a5 a6 a7 a8 show ?thesis
    by (blast intro: keepsBlockHeight_trans)
qed

lemma settled_keepsBlockHeight: "settled s s' \<Longrightarrow> keepsBlockHeight p s s'"
  by (rule keepsBlockHeight_same) (simp_all add: settled_def untouched_def)

lemma afterMeasurement_keepsBlockHeight:
  assumes "afterMeasurement s b = Inr s'"
  shows "keepsBlockHeight (props s) s s' \<and> props s' = props s"
proof (cases b)
  case True
  with assms obtain s1 where c: "calcNewRenderedItemState s (props s) = Inr s1"
    and r: "reconcileCorrections (renderIfDirty s1) (props (renderIfDirty s1)) = Inr s'"
    by (auto simp: afterMeasurement_def split: sum.splits)
  have st: "settled s1 s'"
    by (rule settled_trans[OF renderIfDirty_settled reconcileCorrections_settled[OF r]])
  from calcNewRenderedItemState_untouched[OF c] st have "props s' = props s"
    by (simp add: settled_def untouched_def)
  with keepsBlockHeight_trans[OF calcNewRenderedItemState_keepsBlockHeight[OF c]
         settled_keepsBlockHeight[OF st]]
  show ?thesis by simp
next
  case False
  with assms have "reconcileCorrections s (props s) = Inr s'"
    by (simp add: afterMeasurement_def)
  from reconcileCorrections_settled[OF this] settled_keepsBlockHeight[of s s' "props s"]
  show ?thesis by (simp add: settled_def untouched_def)
qed

lemma heightWith_other_key:
  assumes "\<forall>it. x = Some it \<longrightarrow> key it \<noteq> k"
  shows "heightWith (c(k \<mapsto> m)) x = heightWith c x"
  using assms by (auto simp: heightWith_def split: option.splits)

lemma sumHeights_other_keys:
  assumes "\<forall>j\<in>{a..b}. \<forall>it. itemAt (itemList p) j = Some it \<longrightarrow> key it \<noteq> k"
  shows "sumHeights (c(k \<mapsto> m)) p a b = sumHeights c p a b"
  unfolding sumHeights_def
  by (rule arg_cong[where f = sum_list], rule map_cong[OF refl], rule heightWith_other_key)
     (use assms in auto)

lemma sumHeights_measured:
  assumes "distinct (map key (itemList p))" and "itemAt (itemList p) i = Some it"
    and "key it = k" and "measureHeight it" and "a \<le> i" and "i \<le> b"
  shows "sumHeights (c(k \<mapsto> m)) p a b = sumHeights c p a b + (m - heightWith c (Some it))"
proof -
  have other: "\<forall>j. j \<noteq> i \<longrightarrow> (\<forall>it'. itemAt (itemList p) j = Some it' \<longrightarrow> key it' \<noteq> k)"
    using distinct_keys_index[OF assms(1) _ assms(2)] assms(3) by auto
  have split: "sumHeights c' p a b
      = sumHeights c' p a (i - 1) + heightWith c' (itemAt (itemList p) i) + sumHeights c' p (i + 1) b"
    for c'
    using assms(5,6) by (simp add: sumHeights_def upto_split3[of a i b])
  have l: "sumHeights (c(k \<mapsto> m)) p a (i - 1) = sumHeights c p a (i - 1)"
    by (rule sumHeights_other_keys) (use other in force)
  have r: "sumHeights (c(k \<mapsto> m)) p (i + 1) b = sumHeights c p (i + 1) b"
    by (rule sumHeights_other_keys) (use other in force)
  have mid: "heightWith (c(k \<mapsto> m)) (Some it) = m"
    using assms(3,4) by (simp add: heightWith_def)
  show ?thesis
    unfolding split[of "c(k \<mapsto> m)"] split[of c] l r assms(2) mid by simp
qed

lemma measuredInBlock_blockHeight:
  assumes "distinct (map key (itemList (props s)))"
    and "itemAt (itemList (props s)) (int i) = Some it" and "key it = k" and "measureHeight it"
    and "itemsAboveRenderBlock s \<le> int i"
    and "int i < itemsAboveRenderBlock s + itemsInRenderBlock s"
    and "blockHeightAgrees s (props s)"
    and "measuredInBlock (s\<lparr>heightCache := (heightCache s)(k \<mapsto> m)\<rparr>) k m i
           (getHeightOfItem s (Some it)) = Inr r"
  shows "blockHeightAgrees (fst r) (props (fst r))"
proof -
  let ?s0 = "s\<lparr>heightCache := (heightCache s)(k \<mapsto> m)\<rparr>"
  from assms(8) have f: "heightCache (fst r) = heightCache ?s0" "props (fst r) = props s"
    "itemsAboveRenderBlock (fst r) = itemsAboveRenderBlock s"
    "itemsInRenderBlock (fst r) = itemsInRenderBlock s"
    "heightOfRenderBlock (fst r) = heightOfRenderBlock s + (m - getHeightOfItem s (Some it))"
    by (auto simp: measuredInBlock_def Let_def split: if_splits sum.splits)
  from sumHeights_measured[OF assms(1,2,3,4), of "itemsAboveRenderBlock s"
         "itemsAboveRenderBlock s + itemsInRenderBlock s - 1" "heightCache s" m] assms(5,6)
  have "sumHeights ((heightCache s)(k \<mapsto> m)) (props s) (itemsAboveRenderBlock s)
          (itemsAboveRenderBlock s + itemsInRenderBlock s - 1)
        = sumHeights (heightCache s) (props s) (itemsAboveRenderBlock s)
            (itemsAboveRenderBlock s + itemsInRenderBlock s - 1)
          + (m - heightWith (heightCache s) (Some it))"
    by simp
  with assms(7) f show ?thesis
    by (simp add: blockHeightAgrees_sumHeights getHeightOfItem_heightWith)
qed

subsection \<open>A measured item\<close>

lemma foundVisibleItemBefore_returns:
  assumes "0 \<le> a" and "a \<le> i" and "i \<le> e" and "i < int (length (itemList (props s)))"
  shows "\<exists>b. foundVisibleItemBefore s [a..e] i = Inr b"
  using assms
proof (induction "nat (i - a)" arbitrary: a)
  case 0
  then have ai: "a = i" by simp
  with 0 obtain it where "itemAt (itemList (props s)) a = Some it"
    by (auto simp: itemAt_def)
  with ai 0 show ?case by (subst upto_rec1) auto
next
  case (Suc n)
  then have lt: "a < i" by linarith
  with Suc.prems obtain it where it: "itemAt (itemList (props s)) a = Some it"
    by (auto simp: itemAt_def)
  from Suc.hyps(2) lt have n: "n = nat (i - (a + 1))" by linarith
  from Suc.hyps(1)[OF n] Suc.prems lt obtain b where
    "foundVisibleItemBefore s [a + 1..e] i = Inr b" by auto
  with it lt Suc.prems show ?case by (subst upto_rec1) auto
qed

lemma measuredInBlock_result:
  assumes "0 \<le> itemsAboveRenderBlock s" and "itemsAboveRenderBlock s \<le> int i"
    and "int i < itemsAboveRenderBlock s + itemsInRenderBlock s"
    and "int i < int (length (itemList (props s)))"
  shows "\<exists>r. measuredInBlock s k m i old = Inr r \<and>
     heightOfRenderBlock (fst r) = heightOfRenderBlock s + (m - old) \<and>
     pendingMeasurements (fst r) = pendingMeasurements s - {k} \<and>
     heightCache (fst r) = heightCache s \<and> props (fst r) = props s"
proof -
  let ?s1 = "s\<lparr>heightOfRenderBlock := heightOfRenderBlock s + (m - old)\<rparr>"
  from foundVisibleItemBefore_returns[of "itemsAboveRenderBlock ?s1" "int i"
         "itemsAboveRenderBlock ?s1 + itemsInRenderBlock ?s1 - 1" ?s1] assms
  obtain b where b: "foundVisibleItemBefore ?s1
      [itemsAboveRenderBlock ?s1..itemsAboveRenderBlock ?s1 + itemsInRenderBlock ?s1 - 1] (int i)
      = Inr b"
    by auto
  show ?thesis
  proof (cases "old = m")
    case True
    then show ?thesis by (simp add: measuredInBlock_def)
  next
    case False
    with b show ?thesis
      by (cases b; cases "isInitialFillComplete s")
         (simp_all add: measuredInBlock_def Let_def)
  qed
qed

lemma afterMeasurement_keeps:
  assumes "afterMeasurement s b = Inr s'" and "heightCache s k \<noteq> None"
    and "k \<notin> pendingMeasurements s"
  shows "heightCache s' = heightCache s \<and> k \<notin> pendingMeasurements s'"
proof -
  have known: "k \<notin> unknownKeys s (props s)"
    using assms(2) by (auto simp: unknownKeys_def isItemHeightKnown_def)
  show ?thesis
  proof (cases b)
    case True
    with assms(1) obtain s1 where c: "calcNewRenderedItemState s (props s) = Inr s1"
      and r: "reconcileCorrections (renderIfDirty s1) (props (renderIfDirty s1)) = Inr s'"
      by (auto simp: afterMeasurement_def split: sum.splits)
    from calcNewRenderedItemState_recomputed[OF c] known assms(3)
    have 1: "heightCache s1 = heightCache s" "k \<notin> pendingMeasurements s1"
      by (auto simp: recomputed_def grown_def untouched_def)
    from settled_trans[OF renderIfDirty_settled reconcileCorrections_settled[OF r]]
    have "heightCache s' = heightCache s1" "pendingMeasurements s' = pendingMeasurements s1"
      by (simp_all add: settled_def untouched_def)
    with 1 show ?thesis by simp
  next
    case False
    with assms(1) have "reconcileCorrections s (props s) = Inr s'"
      by (simp add: afterMeasurement_def)
    from reconcileCorrections_settled[OF this] assms(3) show ?thesis
      by (simp add: settled_def untouched_def)
  qed
qed

text \<open>
  C6, amended. Let the item \<open>it\<close> with the key \<open>k\<close> ask for its height to be measured
  and lie inside the render block, whose counter of items above is not negative. While the
  list is not mounted, \<^verbatim>\<open>_onLayoutItem\<close> returns at once and changes nothing. While it
  is mounted and the measurement \<open>m\<close> arrives, the middle of the method returns normally
  and hands on an instance whose cache maps \<open>k\<close> to \<open>m\<close>, whose pending set has lost
  \<open>k\<close>, and whose height of the render block has grown by \<open>m - e\<close>, where \<open>e\<close> is the
  height that the list assumed for the item until then: the cached height of an earlier
  measurement if there is one, and the guess \<open>height it\<close> otherwise. Whenever the whole
  method returns, the cache still maps \<open>k\<close> to \<open>m\<close>, the height of the item is \<open>m\<close>,
  \<open>k\<close> is not pending, and, if the keys of the list are distinct and the height of the
  render block was the sum of the heights of its items before, it is that sum again, now
  with \<open>m\<close> for the item.
\<close>

theorem measurement_recorded:
  assumes "itemMap s k = Some i"
    and "itemAt (itemList (props s)) (int i) = Some it" and "key it = k"
    and "measureHeight it"
    and "0 \<le> itemsAboveRenderBlock s" and "itemsAboveRenderBlock s \<le> int i"
    and "int i < itemsAboveRenderBlock s + itemsInRenderBlock s"
  shows "(\<not> isMounted s \<longrightarrow> onLayoutItem s k m = Inr s) \<and>
    getHeightOfItem s (Some it) = (case heightCache s k of None \<Rightarrow> height it | Some e \<Rightarrow> e) \<and>
    (isMounted s \<longrightarrow>
      (\<exists>s1 b. measuredInBlock (s\<lparr>heightCache := (heightCache s)(k \<mapsto> m)\<rparr>) k m i
                 (getHeightOfItem s (Some it)) = Inr (s1, b) \<and>
          onLayoutItem s k m = afterMeasurement s1 b \<and>
          heightOfRenderBlock s1 = heightOfRenderBlock s + (m - getHeightOfItem s (Some it)) \<and>
          heightCache s1 k = Some m \<and> getHeightOfItem s1 (Some it) = m \<and>
          k \<notin> pendingMeasurements s1) \<and>
      (\<forall>s'. onLayoutItem s k m = Inr s' \<longrightarrow>
          heightCache s' k = Some m \<and> getHeightOfItem s' (Some it) = m \<and>
          k \<notin> pendingMeasurements s' \<and>
          (distinct (map key (itemList (props s))) \<and> blockHeightAgrees s (props s) \<longrightarrow>
             blockHeightAgrees s' (props s'))))"
proof -
  let ?s0 = "s\<lparr>heightCache := (heightCache s)(k \<mapsto> m)\<rparr>"
  let ?e = "getHeightOfItem s (Some it)"
  have u: "\<not> isMounted s \<longrightarrow> onLayoutItem s k m = Inr s"
    by (simp add: onLayoutItem_def)
  have g: "?e = (case heightCache s k of None \<Rightarrow> height it | Some e \<Rightarrow> e)"
    using assms(3,4) by (simp add: getHeightOfItem_def split: option.splits)
  from assms(2) have len: "int i < int (length (itemList (props ?s0)))"
    by (simp add: itemAt_Some_iff)
  from measuredInBlock_result[of ?s0 i k m ?e] assms(5,6,7) len
  obtain r where r: "measuredInBlock ?s0 k m i ?e = Inr r"
    and h: "heightOfRenderBlock (fst r) = heightOfRenderBlock s + (m - ?e)"
    and pm: "pendingMeasurements (fst r) = pendingMeasurements s - {k}"
    and hc: "heightCache (fst r) = heightCache ?s0"
    by auto
  have c1: "heightCache (fst r) k = Some m" using hc by simp
  have p1: "k \<notin> pendingMeasurements (fst r)" using pm by simp
  have g1: "getHeightOfItem (fst r) (Some it) = m"
    using c1 assms(3,4) by (simp add: getHeightOfItem_def)
  have mounted: "(\<exists>s1 b. measuredInBlock ?s0 k m i ?e = Inr (s1, b) \<and>
          onLayoutItem s k m = afterMeasurement s1 b \<and>
          heightOfRenderBlock s1 = heightOfRenderBlock s + (m - ?e) \<and>
          heightCache s1 k = Some m \<and> getHeightOfItem s1 (Some it) = m \<and>
          k \<notin> pendingMeasurements s1) \<and>
      (\<forall>s'. onLayoutItem s k m = Inr s' \<longrightarrow>
          heightCache s' k = Some m \<and> getHeightOfItem s' (Some it) = m \<and>
          k \<notin> pendingMeasurements s' \<and>
          (distinct (map key (itemList (props s))) \<and> blockHeightAgrees s (props s) \<longrightarrow>
             blockHeightAgrees s' (props s')))" if mt: "isMounted s"
  proof -
    have run: "onLayoutItem s k m = afterMeasurement (fst r) (snd r)"
      using mt assms(1,2,4,6,7) r by (simp add: onLayoutItem_def Let_def)
    have fin: "heightCache s' k = Some m \<and> getHeightOfItem s' (Some it) = m \<and>
          k \<notin> pendingMeasurements s' \<and>
          (distinct (map key (itemList (props s))) \<and> blockHeightAgrees s (props s) \<longrightarrow>
             blockHeightAgrees s' (props s'))" if "onLayoutItem s k m = Inr s'" for s'
    proof -
      from that run have am: "afterMeasurement (fst r) (snd r) = Inr s'" by simp
      from afterMeasurement_keeps[OF am, of k] c1 p1
      have "heightCache s' k = Some m" "k \<notin> pendingMeasurements s'" by simp_all
      moreover have "blockHeightAgrees s' (props s')"
        if d: "distinct (map key (itemList (props s)))" and b: "blockHeightAgrees s (props s)"
      proof -
        from measuredInBlock_blockHeight[OF d assms(2,3,4,6,7) b r]
        have "blockHeightAgrees (fst r) (props (fst r))" .
        with afterMeasurement_keepsBlockHeight[OF am] show ?thesis
          by (simp add: keepsBlockHeight_def)
      qed
      ultimately show ?thesis using assms(3,4) by (simp add: getHeightOfItem_def)
    qed
    have mid: "\<exists>s1 b. measuredInBlock ?s0 k m i ?e = Inr (s1, b) \<and>
          onLayoutItem s k m = afterMeasurement s1 b \<and>
          heightOfRenderBlock s1 = heightOfRenderBlock s + (m - ?e) \<and>
          heightCache s1 k = Some m \<and> getHeightOfItem s1 (Some it) = m \<and>
          k \<notin> pendingMeasurements s1"
      using r run h c1 g1 p1 by (intro exI[of _ "fst r"] exI[of _ "snd r"]) simp
    from mid fin show ?thesis by blast
  qed
  from u g mounted show ?thesis by blast
qed

theorem measurement_recorded_witness:
  "getHeightOfItem measuringView (Some measuredItem) = 50 \<and>
   heightOfRenderBlock measuringView = 50 \<and>
   (\<exists>s1 b. measuredInBlock (measuringView\<lparr>heightCache := (heightCache measuringView)(''m'' \<mapsto> 80)\<rparr>)
              ''m'' 80 0 50 = Inr (s1, b) \<and> heightOfRenderBlock s1 = 80) \<and>
   (\<exists>s'. onLayoutItem measuringView ''m'' 80 = Inr s' \<and> heightCache s' ''m'' = Some 80 \<and>
         getHeightOfItem s' (Some measuredItem) = 80 \<and> ''m'' \<notin> pendingMeasurements s' \<and>
         blockHeightAgrees s' (props s') \<and> heightOfRenderBlock s' = 80) \<and>
   onLayoutItem (measuringView\<lparr>isMounted := False\<rparr>) ''m'' 80 = Inr (measuringView\<lparr>isMounted := False\<rparr>)"
proof -
  have h: "itemMap measuringView ''m'' = Some 0"
    "itemAt (itemList (props measuringView)) (int 0) = Some measuredItem"
    "key measuredItem = ''m''" "measureHeight measuredItem"
    "0 \<le> itemsAboveRenderBlock measuringView" "itemsAboveRenderBlock measuringView \<le> int 0"
    "int 0 < itemsAboveRenderBlock measuringView + itemsInRenderBlock measuringView"
    by (simp_all add: measuringView_def newListView_def exampleProps_def measuredItem_def
          itemAt_def)
  have h': "itemMap (measuringView\<lparr>isMounted := False\<rparr>) ''m'' = Some 0"
    "itemAt (itemList (props (measuringView\<lparr>isMounted := False\<rparr>))) (int 0) = Some measuredItem"
    "0 \<le> itemsAboveRenderBlock (measuringView\<lparr>isMounted := False\<rparr>)"
    "itemsAboveRenderBlock (measuringView\<lparr>isMounted := False\<rparr>) \<le> int 0"
    "int 0 < itemsAboveRenderBlock (measuringView\<lparr>isMounted := False\<rparr>)
               + itemsInRenderBlock (measuringView\<lparr>isMounted := False\<rparr>)"
    using h by simp_all
  have v: "isMounted measuringView" "heightCache measuringView ''m'' = None"
    "height measuredItem = 50" "heightOfRenderBlock measuringView = 50"
    by (simp_all add: measuringView_def newListView_def measuredItem_def)
  have d: "distinct (map key (itemList (props measuringView)))"
    "blockHeightAgrees measuringView (props measuringView)"
    by (simp_all add: measuringView_def newListView_def exampleProps_def measuredItem_def
          blockHeightAgrees_def calcHeightOfItems_def getHeightOfItem_def itemAt_def)
  have e: "map_sum id heightOfRenderBlock (onLayoutItem measuringView ''m'' 80) = Inr 80"
    by code_simp
  then obtain s' where s': "onLayoutItem measuringView ''m'' 80 = Inr s'"
    and e': "heightOfRenderBlock s' = 80"
    by (cases "onLayoutItem measuringView ''m'' 80") auto
  from measurement_recorded[OF h'(1,2) h(3,4) h'(3,4,5), of 80]
  have un: "onLayoutItem (measuringView\<lparr>isMounted := False\<rparr>) ''m'' 80
              = Inr (measuringView\<lparr>isMounted := False\<rparr>)" by simp
  from measurement_recorded[OF h, of 80] v s' d e' un show ?thesis by auto
qed


text \<open>
  The claim C6 as stated fails for a second measurement. The item guessed at 50 and
  measured at 80 stays in the render block and is measured again at 90: the height of the
  render block goes from 80 to 90, which is an increase by the difference to the cached
  height, 10, and not by the difference to the guess, 40.
\<close>

theorem second_measurement_counterexample:
  "height measuredItem = 50 \<and>
   map_sum id (\<lambda>s. (heightCache s ''m'', heightOfRenderBlock s, itemsAboveRenderBlock s,
                     itemsInRenderBlock s, isMounted s))
     (onLayoutItem measuringView ''m'' 80) = Inr (Some 80, 80, 0, 1, True) \<and>
   map_sum id (\<lambda>s. (heightCache s ''m'', heightOfRenderBlock s))
     (case onLayoutItem measuringView ''m'' 80 of
        Inl e \<Rightarrow> Inl e
      | Inr s \<Rightarrow> onLayoutItem s ''m'' 90) = Inr (Some 90, 90)"
  by code_simp

subsection \<open>Reusing recycled cells\<close>

lemma bestOptionIndex_Some:
  assumes "bestOptionIndex rc k t h = Some i"
  shows "i < length rc \<and> itemTemplate (rc ! i) = t \<and>
    (if \<exists>c\<in>set rc. itemTemplate c = t \<and> cachedItemKey c = k \<and> height_cell c = h
     then cachedItemKey (rc ! i) = k \<and> height_cell (rc ! i) = h \<and>
          (\<forall>j<i. \<not> (itemTemplate (rc ! j) = t \<and> cachedItemKey (rc ! j) = k
                       \<and> height_cell (rc ! j) = h))
     else (\<forall>j<i. itemTemplate (rc ! j) \<noteq> t))"
proof (cases "findIndex rc (\<lambda>c. itemTemplate c = t \<and> cachedItemKey c = k \<and> height_cell c = h)")
  case None
  with assms have f: "findIndex rc (\<lambda>c. itemTemplate c = t) = Some i"
    by (simp add: bestOptionIndex_def)
  from None have "\<not> (\<exists>c\<in>set rc. itemTemplate c = t \<and> cachedItemKey c = k \<and> height_cell c = h)"
    by (simp add: findIndex_None)
  with findIndex_Some[OF f] show ?thesis by auto
next
  case (Some j)
  with assms have ij: "j = i" by (simp add: bestOptionIndex_def)
  from findIndex_Some[OF Some] ij
  have e: "i < length rc" "itemTemplate (rc ! i) = t \<and> cachedItemKey (rc ! i) = k
             \<and> height_cell (rc ! i) = h"
    "\<forall>j<i. \<not> (itemTemplate (rc ! j) = t \<and> cachedItemKey (rc ! j) = k \<and> height_cell (rc ! j) = h)"
    by auto
  from e(1,2) have "\<exists>c\<in>set rc. itemTemplate c = t \<and> cachedItemKey c = k \<and> height_cell c = h"
    by (intro bexI[of _ "rc ! i"]) auto
  with e show ?thesis by simp
qed

lemma bestOptionIndex_None:
  "bestOptionIndex rc k t h = None \<longleftrightarrow> (\<forall>c\<in>set rc. itemTemplate c \<noteq> t)"
proof
  assume "bestOptionIndex rc k t h = None"
  then have "findIndex rc (\<lambda>c. itemTemplate c = t) = None"
    by (simp add: bestOptionIndex_def split: option.splits)
  then show "\<forall>c\<in>set rc. itemTemplate c \<noteq> t" by (simp add: findIndex_None)
next
  assume "\<forall>c\<in>set rc. itemTemplate c \<noteq> t"
  then have "findIndex rc (\<lambda>c. itemTemplate c = t \<and> cachedItemKey c = k \<and> height_cell c = h)
               = None"
    and "findIndex rc (\<lambda>c. itemTemplate c = t) = None"
    by (simp_all add: findIndex_None)
  then show "bestOptionIndex rc k t h = None" by (simp add: bestOptionIndex_def)
qed

lemma allocateCell_reuse:
  assumes "activeCells s k = None" and "truthy t"
    and "\<forall>c\<in>set (recycledCells s). isHeightConstant c"
    and "bestOptionIndex (recycledCells s) k t h = Some i"
  shows "allocateCell s k t idx True h y v =
     Inr (s\<lparr>recycledCells := splice1 (recycledCells s) i, isRenderDirty := True,
            activeCells := (activeCells s)(k \<mapsto>
              (recycledCells s ! i)\<lparr>isVisible := v, top_cell := y, shouldUpdate := True\<rparr>)\<rparr>)"
proof -
  from bestOptionIndex_Some[OF assms(4)] have i: "i < length (recycledCells s)"
    and t: "itemTemplate (recycledCells s ! i) = t" by auto
  from i assms(3) have "isHeightConstant (recycledCells s ! i)" by simp
  with assms t show ?thesis
    by (simp add: allocateCell_def Let_def assert_def)
qed

lemma allocateCell_fresh:
  assumes "activeCells s k = None"
    and "\<not> (truthy t \<and> c) \<or> bestOptionIndex (recycledCells s) k t h = None"
  shows "allocateCell s k t idx c h y v =
     Inr (s\<lparr>recycledCells := recycledCells s, nextCellKey := nextCellKey s + 1,
            isRenderDirty := True,
            activeCells := (activeCells s)(k \<mapsto>
              \<lparr>virtualKey = nextCellKey s, itemTemplate = t, isHeightConstant = c,
               height_cell = h, cachedItemKey = k, top_cell = y, isVisible = v,
               shouldUpdate = True\<rparr>)\<rparr>)"
  using assms by (auto simp: allocateCell_def Let_def)

text \<open>
  The rest of this section follows a recycled cell through \<^verbatim>\<open>_handleItemListChange\<close>.
  First the search: if the recycled cells with the template \<open>t\<close> start with the cell
  \<open>cx\<close> and none of the others is an exact match for the key \<open>y\<close> and the height
  \<open>h\<close>, the search for \<open>y\<close> finds \<open>cx\<close>; pushing a cell that is no exact match and
  taking out a cell of another template keep it so.
\<close>

lemma filter_splice1:
  assumes "i < length xs" and "\<not> P (xs ! i)"
  shows "filter P (splice1 xs i) = filter P xs"
proof -
  have "filter P xs = filter P (take i xs @ xs ! i # drop (Suc i) xs)"
    using id_take_nth_drop[OF assms(1)] by simp
  with assms(2) show ?thesis by (simp add: splice1_def)
qed

lemma set_splice1: "set (splice1 xs i) \<subseteq> set xs"
  by (auto simp: splice1_def dest: in_set_takeD in_set_dropD)

lemma length_splice1: "length (splice1 xs i) \<le> length xs"
  by (simp add: splice1_def)

lemma findIndex_filter_head:
  assumes "filter P xs = a # r" and "Q a" and "\<forall>d. Q d \<longrightarrow> P d"
  shows "\<exists>i. findIndex xs Q = Some i \<and> xs ! i = a"
  using assms(1)
proof (induction xs)
  case Nil then show ?case by simp
next
  case (Cons x xs)
  show ?case
  proof (cases "P x")
    case True
    with Cons.prems assms(2) show ?thesis by simp
  next
    case False
    with assms(3) have "\<not> Q x" by blast
    with Cons False show ?thesis by auto
  qed
qed

definition pooledFirst :: "cell list \<Rightarrow> string option \<Rightarrow> string \<Rightarrow> rat \<Rightarrow> cell \<Rightarrow> bool" where
  "pooledFirst rc t y h cx =
     (\<exists>po. filter (\<lambda>d. itemTemplate d = t) rc = cx # po \<and>
        (\<forall>d\<in>set po. \<not> (cachedItemKey d = y \<and> height_cell d = h)))"

lemma pooledFirst_best:
  assumes "pooledFirst rc t y h cx"
  shows "\<exists>i. bestOptionIndex rc y t h = Some i \<and> rc ! i = cx"
proof -
  let ?P = "\<lambda>d. itemTemplate d = t"
  let ?Q = "\<lambda>d. itemTemplate d = t \<and> cachedItemKey d = y \<and> height_cell d = h"
  from assms obtain po where f: "filter ?P rc = cx # po"
    and po: "\<forall>d\<in>set po. \<not> (cachedItemKey d = y \<and> height_cell d = h)"
    by (auto simp: pooledFirst_def)
  from f have "cx \<in> set (filter ?P rc)" by simp
  then have tc: "?P cx" by simp
  show ?thesis
  proof (cases "?Q cx")
    case True
    from findIndex_filter_head[OF f, of ?Q] True
    obtain i where "findIndex rc ?Q = Some i" "rc ! i = cx" by blast
    then show ?thesis by (simp add: bestOptionIndex_def)
  next
    case False
    have "\<not> ?Q d" if "d \<in> set rc" for d
    proof
      assume q: "?Q d"
      with that have "d \<in> set (filter ?P rc)" by simp
      with f have "d = cx \<or> d \<in> set po" by simp
      with False po q show False by blast
    qed
    then have n: "findIndex rc ?Q = None" by (simp add: findIndex_None)
    from findIndex_filter_head[OF f, of ?P] tc
    obtain i where "findIndex rc ?P = Some i" "rc ! i = cx" by blast
    with n show ?thesis by (simp add: bestOptionIndex_def)
  qed
qed

lemma pooledFirst_push:
  assumes "pooledFirst rc t y h cx"
    and "itemTemplate d = t \<longrightarrow> \<not> (cachedItemKey d = y \<and> height_cell d = h)"
  shows "pooledFirst (rc @ [d]) t y h cx"
  using assms by (auto simp: pooledFirst_def)

lemma pooledFirst_splice1:
  assumes "pooledFirst rc t y h cx" and "i < length rc" and "itemTemplate (rc ! i) \<noteq> t"
  shows "pooledFirst (splice1 rc i) t y h cx"
  using assms(1) filter_splice1[OF assms(2), of "\<lambda>d. itemTemplate d = t"] assms(3)
  by (simp add: pooledFirst_def)

definition reserved :: "listView \<Rightarrow> string option \<Rightarrow> string \<Rightarrow> rat \<Rightarrow> cell \<Rightarrow> bool" where
  "reserved s t y h cx =
     (activeCells s y = None \<and> pooledFirst (recycledCells s) t y h cx \<and>
      (\<forall>d\<in>set (recycledCells s). isHeightConstant d))"

lemma allocateCell_returns:
  assumes "activeCells s k = None" and "\<forall>d\<in>set (recycledCells s). isHeightConstant d"
  shows "\<exists>s'. allocateCell s k tm idx cst h' top' v = Inr s' \<and>
     (\<forall>z. z \<noteq> k \<longrightarrow> activeCells s' z = activeCells s z) \<and> activeCells s' k \<noteq> None \<and>
     maxRecycledCells s' = maxRecycledCells s \<and>
     (recycledCells s' = recycledCells s \<and> nextCellKey s' = nextCellKey s + 1 \<or>
      (\<exists>i. i < length (recycledCells s) \<and> itemTemplate (recycledCells s ! i) = tm \<and> truthy tm \<and> cst \<and>
           recycledCells s' = splice1 (recycledCells s) i \<and> nextCellKey s' = nextCellKey s))"
proof (cases "truthy tm \<and> cst \<and> bestOptionIndex (recycledCells s) k tm h' \<noteq> None")
  case False
  then have "\<not> (truthy tm \<and> cst) \<or> bestOptionIndex (recycledCells s) k tm h' = None" by blast
  from allocateCell_fresh[OF assms(1) this, of idx top' v]
  have e: "allocateCell s k tm idx cst h' top' v =
     Inr (s\<lparr>recycledCells := recycledCells s, nextCellKey := nextCellKey s + 1,
            isRenderDirty := True,
            activeCells := (activeCells s)(k \<mapsto>
              \<lparr>virtualKey = nextCellKey s, itemTemplate = tm, isHeightConstant = cst,
               height_cell = h', cachedItemKey = k, top_cell = top', isVisible = v,
               shouldUpdate = True\<rparr>)\<rparr>)" .
  show ?thesis unfolding e by simp
next
  case True
  then obtain i where b: "bestOptionIndex (recycledCells s) k tm h' = Some i"
    and tt: "truthy tm" and c: "cst = True" by auto
  from bestOptionIndex_Some[OF b] have i: "i < length (recycledCells s)"
    "itemTemplate (recycledCells s ! i) = tm" by simp_all
  note e = allocateCell_reuse[OF assms(1) tt assms(2) b, of idx top' v]
  show ?thesis unfolding c e using i tt by auto
qed

text \<open>
  One iteration of the third loop of \<^verbatim>\<open>_handleItemListChange\<close>, after the test of the
  position: \<open>placeCell\<close> is what the loop does to the cells for one item, given whether
  the item lies in the render block. The loop is this function, iterated. It leaves the
  scroll window, the cached heights and the pending adjustment alone.
\<close>

definition placeCell :: "listView \<Rightarrow> item \<Rightarrow> nat \<Rightarrow> rat \<Rightarrow> bool \<Rightarrow> error + listView" where
  "placeCell s it itemIndex top' inBlock =
     (if inBlock then
        (let s2 = s\<lparr>itemsInRenderBlock := itemsInRenderBlock s + 1\<rparr>
         in if activeCells s2 (key it) \<noteq> None then
              setCellTopAndVisibility s2 (key it) (shouldShowItem s2 it) top'
            else
              (case allocateCell s2 (key it) (template it) itemIndex
                      (\<not> measureHeight it) (height it) top' (shouldShowItem s2 it) of
                 Inl e \<Rightarrow> Inl e
               | Inr s3 \<Rightarrow>
                   Inr (if \<not> isItemHeightKnown s3 it then
                          s3\<lparr>pendingMeasurements := insert (key it) (pendingMeasurements s3)\<rparr>
                        else s3)))
      else (if activeCells s (key it) \<noteq> None then recycleCell s (key it) else Inr s))"

lemma placeItems_Cons:
  "placeItems s lo hi (it # rest) idx yp l =
     (case placeCell
             (if lo < yp + getHeightOfItem s (Some it) \<and> l
              then s\<lparr>itemsAboveRenderBlock := int idx\<rparr> else s)
             it idx (yp + getHeightOfItem s (Some it) - getHeightOfItem s (Some it))
             (lo < yp + getHeightOfItem s (Some it) \<and>
              yp + getHeightOfItem s (Some it) - getHeightOfItem s (Some it) < hi) of
        Inl e \<Rightarrow> Inl e
      | Inr s' \<Rightarrow>
          placeItems s' lo hi rest (idx + 1) (yp + getHeightOfItem s (Some it))
            (l \<and> yp + getHeightOfItem s (Some it) \<le> lo))"
  by (auto simp: placeCell_def Let_def split: sum.splits)

definition poolConstant :: "listView \<Rightarrow> bool" where
  "poolConstant s = (\<forall>d\<in>set (recycledCells s). isHeightConstant d)"

lemma recycleCell_room:
  assumes "activeCells s k = Some d" and "length (recycledCells s) < maxRecycledCells s"
  shows "\<exists>s'. recycleCell s k = Inr s' \<and> activeCells s' k = None \<and>
     (\<forall>z. z \<noteq> k \<longrightarrow> activeCells s' z = activeCells s z) \<and>
     maxRecycledCells s' = maxRecycledCells s \<and> nextCellKey s' = nextCellKey s \<and>
     recycledCells s' = recycledCells s @
       (if truthy (itemTemplate d) \<and> isHeightConstant d then [d\<lparr>isVisible := False\<rparr>] else [])"
  using assms
  by (auto simp: recycleCell_def setCellTopAndVisibility_def Let_def)

lemma recycleCell_returns:
  assumes "activeCells s k = Some d" and "poolConstant s"
  shows "\<exists>s'. recycleCell s k = Inr s' \<and> activeCells s' k = None \<and>
     (\<forall>z. z \<noteq> k \<longrightarrow> activeCells s' z = activeCells s z) \<and>
     maxRecycledCells s' = maxRecycledCells s \<and> nextCellKey s' = nextCellKey s \<and>
     poolConstant s'"
  using assms
  by (auto simp: recycleCell_def setCellTopAndVisibility_def Let_def splice1_def poolConstant_def
           dest: in_set_dropD)

lemma setCellTopAndVisibility_active:
  assumes "activeCells s k = Some d"
  shows "setCellTopAndVisibility s k v y =
     Inr (s\<lparr>activeCells := (activeCells s)(k \<mapsto> d\<lparr>isVisible := v, top_cell := y\<rparr>)\<rparr>)"
  using assms by (simp add: setCellTopAndVisibility_def)

definition windowKept :: "listView \<Rightarrow> listView \<Rightarrow> bool" where
  "windowKept s s' =
     (lastScrollTop s' = lastScrollTop s \<and> layoutHeight s' = layoutHeight s \<and>
      isInitialFillComplete s' = isInitialFillComplete s \<and>
      renderOverdrawFactor s' = renderOverdrawFactor s \<and>
      minOverdrawAmount s' = minOverdrawAmount s \<and> maxOverdrawAmount s' = maxOverdrawAmount s)"

definition placementKept :: "listView \<Rightarrow> listView \<Rightarrow> bool" where
  "placementKept s s' =
     (windowKept s s' \<and> heightCache s' = heightCache s \<and>
      heightAboveRenderAdjustment s' = heightAboveRenderAdjustment s)"

lemma placementKept_refl: "placementKept s s"
  by (simp add: placementKept_def windowKept_def)

lemma placementKept_trans: "placementKept s s1 \<Longrightarrow> placementKept s1 s2 \<Longrightarrow> placementKept s s2"
  by (simp add: placementKept_def windowKept_def)

lemma windowKept_overdraw: "windowKept s s' \<Longrightarrow> calcOverdrawAmount s' = calcOverdrawAmount s"
  by (simp add: windowKept_def calcOverdrawAmount_def)

lemma placementKept_height: "placementKept s s' \<Longrightarrow> getHeightOfItem s' x = getHeightOfItem s x"
  by (auto simp: placementKept_def getHeightOfItem_def split: option.splits)

lemma recycleCell_placementKept: "recycleCell s k = Inr s' \<Longrightarrow> placementKept s s'"
  by (auto simp: recycleCell_def setCellTopAndVisibility_def assert_def Let_def
        placementKept_def windowKept_def split: option.splits if_splits)

lemma allocateCell_placementKept:
  "allocateCell s k t i c h y v = Inr s' \<Longrightarrow> placementKept s s'"
  by (auto simp: allocateCell_def assert_def Let_def placementKept_def windowKept_def
           split: option.splits if_splits prod.splits)

lemma setCellTopAndVisibility_placementKept:
  "setCellTopAndVisibility s k v t = Inr s' \<Longrightarrow> placementKept s s'"
  by (auto simp: setCellTopAndVisibility_def assert_def placementKept_def windowKept_def
           split: option.splits)

lemma placeCell_placementKept:
  assumes "placeCell s it idx y b = Inr s'"
  shows "placementKept s s'"
proof -
  let ?s2 = "s\<lparr>itemsInRenderBlock := itemsInRenderBlock s + 1\<rparr>"
  have s2: "placementKept s ?s2" by (simp add: placementKept_def windowKept_def)
  have p: "placementKept s0 (s0\<lparr>pendingMeasurements := m\<rparr>)" for s0 m
    by (simp add: placementKept_def windowKept_def)
  from assms show ?thesis
    by (auto simp: placeCell_def Let_def placementKept_refl split: if_splits sum.splits
             intro: recycleCell_placementKept
                    placementKept_trans[OF s2 setCellTopAndVisibility_placementKept]
                    placementKept_trans[OF s2 allocateCell_placementKept]
                    placementKept_trans[OF placementKept_trans[OF s2 allocateCell_placementKept] p])
qed

definition otherCellsKept :: "string \<Rightarrow> listView \<Rightarrow> listView \<Rightarrow> bool" where
  "otherCellsKept k s s' =
     ((\<forall>z. z \<noteq> k \<longrightarrow> activeCells s' z = activeCells s z) \<and>
      maxRecycledCells s' = maxRecycledCells s \<and> poolConstant s' \<and>
      (activeCells s k \<noteq> None \<longrightarrow> nextCellKey s' = nextCellKey s))"

lemma placeCell_returns:
  assumes "poolConstant s"
  shows "\<exists>s'. placeCell s it idx y b = Inr s' \<and> otherCellsKept (key it) s s'"
proof (cases "activeCells s (key it)")
  case None
  let ?s2 = "s\<lparr>itemsInRenderBlock := itemsInRenderBlock s + 1\<rparr>"
  have a: "activeCells ?s2 (key it) = None" "\<forall>d\<in>set (recycledCells ?s2). isHeightConstant d"
    using None assms by (simp_all add: poolConstant_def)
  from allocateCell_returns[OF a, of "template it" idx "\<not> measureHeight it" "height it" y
         "shouldShowItem ?s2 it"]
  obtain s3 where s3: "allocateCell ?s2 (key it) (template it) idx (\<not> measureHeight it) (height it)
         y (shouldShowItem ?s2 it) = Inr s3"
    and f: "\<forall>z. z \<noteq> key it \<longrightarrow> activeCells s3 z = activeCells ?s2 z"
      "maxRecycledCells s3 = maxRecycledCells ?s2"
      "recycledCells s3 = recycledCells ?s2 \<or>
        (\<exists>i. recycledCells s3 = splice1 (recycledCells ?s2) i)"
    by blast
  from f(3) a(2) have pc: "\<forall>d\<in>set (recycledCells s3). isHeightConstant d"
    using set_splice1 by fastforce
  show ?thesis
    using None s3 f(1,2) pc assms
    by (auto simp: placeCell_def Let_def otherCellsKept_def poolConstant_def)
next
  case (Some d)
  let ?s2 = "s\<lparr>itemsInRenderBlock := itemsInRenderBlock s + 1\<rparr>"
  have a: "activeCells ?s2 (key it) = Some d" using Some by simp
  from recycleCell_returns[OF Some assms] obtain sa where
    sa: "recycleCell s (key it) = Inr sa" "otherCellsKept (key it) s sa"
    by (auto simp: otherCellsKept_def)
  note sc = setCellTopAndVisibility_active[OF a]
  show ?thesis
    using Some sa assms
    by (auto simp: placeCell_def Let_def sc otherCellsKept_def poolConstant_def)
qed

definition harmless :: "listView \<Rightarrow> string option \<Rightarrow> string \<Rightarrow> rat \<Rightarrow> item \<Rightarrow> bool" where
  "harmless s t y h it =
     (case activeCells s (key it) of
        None \<Rightarrow> template it \<noteq> t \<or> measureHeight it
      | Some d \<Rightarrow> \<not> (itemTemplate d = t \<and> cachedItemKey d = y \<and> height_cell d = h))"

lemma placeCell_reserved:
  assumes "reserved s t y h cx" and "key it \<noteq> y" and "harmless s t y h it"
    and "length (recycledCells s) < maxRecycledCells s"
  shows "\<exists>s'. placeCell s it idx top' b = Inr s' \<and> reserved s' t y h cx \<and>
     length (recycledCells s') \<le> length (recycledCells s) + 1"
proof (cases "activeCells s (key it)")
  case None
  let ?s2 = "s\<lparr>itemsInRenderBlock := itemsInRenderBlock s + 1\<rparr>"
  have a: "activeCells ?s2 (key it) = None" "\<forall>d\<in>set (recycledCells ?s2). isHeightConstant d"
    using None assms(1) by (simp_all add: reserved_def)
  from allocateCell_returns[OF a, of "template it" idx "\<not> measureHeight it" "height it"
         top' "shouldShowItem ?s2 it"]
  obtain s3 where s3: "allocateCell ?s2 (key it) (template it) idx (\<not> measureHeight it) (height it)
         top' (shouldShowItem ?s2 it) = Inr s3"
    and f: "\<forall>z. z \<noteq> key it \<longrightarrow> activeCells s3 z = activeCells s z"
      "recycledCells s3 = recycledCells s \<or>
        (\<exists>i. i < length (recycledCells s) \<and> itemTemplate (recycledCells s ! i) = template it \<and>
             \<not> measureHeight it \<and> recycledCells s3 = splice1 (recycledCells s) i)"
    by auto
  from None assms(3) have hl: "template it \<noteq> t \<or> measureHeight it" by (simp add: harmless_def)
  have y3: "activeCells s3 y = None" using f(1) assms(1,2) by (simp add: reserved_def)
  have p2: "pooledFirst (recycledCells s) t y h cx" "\<forall>d\<in>set (recycledCells s). isHeightConstant d"
    using assms(1) by (simp_all add: reserved_def)
  from f(2) have p3: "pooledFirst (recycledCells s3) t y h cx \<and>
      (\<forall>d\<in>set (recycledCells s3). isHeightConstant d) \<and>
      length (recycledCells s3) \<le> length (recycledCells s)"
  proof
    assume "recycledCells s3 = recycledCells s"
    with p2 show ?thesis by simp
  next
    assume "\<exists>i. i < length (recycledCells s) \<and> itemTemplate (recycledCells s ! i) = template it \<and>
             \<not> measureHeight it \<and> recycledCells s3 = splice1 (recycledCells s) i"
    then obtain i where i: "i < length (recycledCells s)"
      "itemTemplate (recycledCells s ! i) = template it" "\<not> measureHeight it"
      "recycledCells s3 = splice1 (recycledCells s) i" by blast
    from i(2,3) hl have "itemTemplate (recycledCells s ! i) \<noteq> t" by simp
    from pooledFirst_splice1[OF p2(1) i(1) this] i(4) p2(2)
      set_splice1[of "recycledCells s" i] length_splice1[of "recycledCells s" i]
    show ?thesis by auto
  qed
  have r3: "reserved s3 t y h cx" "length (recycledCells s3) \<le> length (recycledCells s) + 1"
    "reserved (s3\<lparr>pendingMeasurements := insert (key it) (pendingMeasurements s3)\<rparr>) t y h cx"
    using y3 p3 by (simp_all add: reserved_def)
  show ?thesis
    using None s3 r3 assms(1)
    by (auto simp: placeCell_def Let_def)
next
  case (Some d)
  let ?s2 = "s\<lparr>itemsInRenderBlock := itemsInRenderBlock s + 1\<rparr>"
  from Some assms(3) have hl: "itemTemplate d = t \<longrightarrow> \<not> (cachedItemKey d = y \<and> height_cell d = h)"
    by (simp add: harmless_def)
  from recycleCell_room[OF Some assms(4)] obtain sa where s': "recycleCell s (key it) = Inr sa"
      "\<forall>z. z \<noteq> key it \<longrightarrow> activeCells sa z = activeCells s z"
      "recycledCells sa = recycledCells s @
         (if truthy (itemTemplate d) \<and> isHeightConstant d then [d\<lparr>isVisible := False\<rparr>] else [])"
    by blast
  have "pooledFirst (recycledCells sa) t y h cx"
    using s'(3) assms(1) hl pooledFirst_push[of "recycledCells s" t y h cx "d\<lparr>isVisible := False\<rparr>"]
    by (simp add: reserved_def)
  moreover have "\<forall>d\<in>set (recycledCells sa). isHeightConstant d"
    using s'(3) assms(1) by (auto simp: reserved_def)
  moreover have "activeCells sa y = None" using s'(2) assms(1,2) by (simp add: reserved_def)
  moreover have "length (recycledCells sa) \<le> length (recycledCells s) + 1"
    using s'(3) by simp
  ultimately have sa: "reserved sa t y h cx" "length (recycledCells sa) \<le> length (recycledCells s) + 1"
    by (simp_all add: reserved_def)
  have a3: "activeCells ?s2 (key it) = Some d" using Some by simp
  note sc = setCellTopAndVisibility_active[OF a3]
  have rc: "reserved (?s2\<lparr>activeCells := (activeCells ?s2)(key it \<mapsto> d')\<rparr>) t y h cx" for d'
    using assms(1,2) by (simp add: reserved_def)
  show ?thesis
    using Some s'(1) sa rc
    by (auto simp: placeCell_def Let_def sc)
qed

lemma placeCell_target:
  assumes "reserved s t y h cx" and "key yi = y" and "template yi = t" and "\<not> measureHeight yi"
    and "height yi = h" and "truthy t"
  shows "\<exists>s'. placeCell s yi idx top' b = Inr s' \<and> poolConstant s' \<and>
     nextCellKey s' = nextCellKey s \<and> maxRecycledCells s' = maxRecycledCells s \<and>
     (\<forall>z. z \<noteq> y \<longrightarrow> activeCells s' z = activeCells s z) \<and>
     activeCells s' y =
       (if b then Some (cx\<lparr>isVisible := isInitialFillComplete s, top_cell := top',
                           shouldUpdate := True\<rparr>)
        else None)"
proof -
  let ?s2 = "s\<lparr>itemsInRenderBlock := itemsInRenderBlock s + 1\<rparr>"
  have n: "activeCells s (key yi) = None" using assms(1,2) by (simp add: reserved_def)
  have pc: "poolConstant s" using assms(1) by (simp add: reserved_def poolConstant_def)
  have a: "activeCells ?s2 y = None" "\<forall>d\<in>set (recycledCells ?s2). isHeightConstant d"
    "pooledFirst (recycledCells ?s2) t y h cx"
    using assms(1) by (simp_all add: reserved_def)
  from pooledFirst_best[OF a(3)] obtain i where
    i: "bestOptionIndex (recycledCells ?s2) y t h = Some i" "recycledCells ?s2 ! i = cx" by blast
  note e = allocateCell_reuse[OF a(1) assms(6) a(2) i(1), of idx top' "shouldShowItem ?s2 yi"]
  have pc3: "\<forall>d\<in>set (splice1 (recycledCells s) i). isHeightConstant d"
    using a(2) set_splice1[of "recycledCells s" i] by auto
  have k: "isItemHeightKnown s0 yi" for s0 using assms(4) by (simp add: isItemHeightKnown_def)
  have sh: "shouldShowItem ?s2 yi = isInitialFillComplete s"
    by (simp add: shouldShowItem_def k)
  have e': "allocateCell ?s2 (key yi) (template yi) idx (\<not> measureHeight yi) (height yi) top'
              (shouldShowItem ?s2 yi) =
     Inr (?s2\<lparr>recycledCells := splice1 (recycledCells ?s2) i, isRenderDirty := True,
            activeCells := (activeCells ?s2)(y \<mapsto>
              (recycledCells ?s2 ! i)\<lparr>isVisible := shouldShowItem ?s2 yi, top_cell := top',
                 shouldUpdate := True\<rparr>)\<rparr>)"
    using e assms(2,3,4,5) by simp
  show ?thesis
  proof (cases b)
    case True
    then have "placeCell s yi idx top' b =
      Inr (?s2\<lparr>recycledCells := splice1 (recycledCells ?s2) i, isRenderDirty := True,
            activeCells := (activeCells ?s2)(y \<mapsto>
              (recycledCells ?s2 ! i)\<lparr>isVisible := shouldShowItem ?s2 yi, top_cell := top',
                 shouldUpdate := True\<rparr>)\<rparr>)"
      using n by (simp add: placeCell_def Let_def e' k)
    then show ?thesis using True pc3 i(2) sh by (simp add: poolConstant_def)
  next
    case False
    then have "placeCell s yi idx top' b = Inr s" using n by (simp add: placeCell_def)
    then show ?thesis using False pc n assms(2) by simp
  qed
qed

lemma distinct_map_head: "distinct (map f (a # xs)) \<Longrightarrow> i \<in> set xs \<Longrightarrow> f i \<noteq> f a"
  by (induction xs) auto

lemma placeItems_returns:
  assumes "poolConstant s"
  shows "\<exists>s'. placeItems s lo hi xs idx yp l = Inr s' \<and> placementKept s s' \<and>
     (\<forall>z. z \<notin> key ` set xs \<longrightarrow> activeCells s' z = activeCells s z) \<and>
     (distinct (map key xs) \<and> (\<forall>it\<in>set xs. activeCells s (key it) \<noteq> None) \<longrightarrow>
        nextCellKey s' = nextCellKey s)"
  using assms
proof (induction xs arbitrary: s idx yp l)
  case Nil
  then show ?case by (simp add: placementKept_refl)
next
  case (Cons it xs)
  let ?s1 = "if lo < yp + getHeightOfItem s (Some it) \<and> l
             then s\<lparr>itemsAboveRenderBlock := int idx\<rparr> else s"
  let ?y = "yp + getHeightOfItem s (Some it) - getHeightOfItem s (Some it)"
  let ?b = "lo < yp + getHeightOfItem s (Some it) \<and> ?y < hi"
  have f1: "activeCells ?s1 = activeCells s" "nextCellKey ?s1 = nextCellKey s" by simp_all
  have k1: "placementKept s ?s1" by (simp add: placementKept_def windowKept_def)
  have "poolConstant ?s1" using Cons.prems by (simp add: poolConstant_def)
  from placeCell_returns[OF this, of it idx ?y ?b]
  obtain sm where sm: "placeCell ?s1 it idx ?y ?b = Inr sm" "otherCellsKept (key it) ?s1 sm"
    by blast
  from sm(2) have k: "\<forall>z. z \<noteq> key it \<longrightarrow> activeCells sm z = activeCells s z" "poolConstant sm"
    "activeCells s (key it) \<noteq> None \<longrightarrow> nextCellKey sm = nextCellKey s"
    unfolding otherCellsKept_def f1 by simp_all
  from Cons.IH[OF k(2), of "idx + 1" "yp + getHeightOfItem s (Some it)"
         "l \<and> yp + getHeightOfItem s (Some it) \<le> lo"]
  obtain s' where s': "placeItems sm lo hi xs (idx + 1) (yp + getHeightOfItem s (Some it))
         (l \<and> yp + getHeightOfItem s (Some it) \<le> lo) = Inr s'"
    "placementKept sm s'"
    "\<forall>z. z \<notin> key ` set xs \<longrightarrow> activeCells s' z = activeCells sm z"
    "distinct (map key xs) \<and> (\<forall>it\<in>set xs. activeCells sm (key it) \<noteq> None) \<longrightarrow>
        nextCellKey s' = nextCellKey sm"
    by blast
  have run: "placeItems s lo hi (it # xs) idx yp l = Inr s'"
    unfolding placeItems_Cons sm(1) using s'(1) by simp
  have pk: "placementKept s s'"
    using placementKept_trans[OF placementKept_trans[OF k1 placeCell_placementKept[OF sm(1)]] s'(2)] .
  have fr: "\<forall>z. z \<notin> key ` set (it # xs) \<longrightarrow> activeCells s' z = activeCells s z"
    using s'(3) k(1) by simp
  have nk: "nextCellKey s' = nextCellKey s"
    if "distinct (map key (it # xs))" "\<forall>it\<in>set (it # xs). activeCells s (key it) \<noteq> None"
  proof -
    have "\<forall>i\<in>set xs. activeCells sm (key i) \<noteq> None"
    proof
      fix i assume i: "i \<in> set xs"
      from distinct_map_head[OF that(1) i] have "key i \<noteq> key it" .
      with k(1) that(2) i show "activeCells sm (key i) \<noteq> None" by simp
    qed
    with s'(4) that k(3) show ?thesis by simp
  qed
  from run pk fr nk show ?case by blast
qed

lemma harmless_cong:
  "activeCells s' (key it) = activeCells s (key it) \<Longrightarrow> harmless s' t y h it = harmless s t y h it"
  by (simp add: harmless_def)

lemma placeItems_reserved:
  assumes "reserved s t y h cx" and "distinct (map key pre)" and "y \<notin> key ` set pre"
    and "\<forall>it\<in>set pre. harmless s t y h it"
    and "length (recycledCells s) + length pre \<le> maxRecycledCells s"
  shows "\<exists>s1 yp1 l1. placeItems s lo hi (pre @ rest) idx yp l
            = placeItems s1 lo hi rest (idx + length pre) yp1 l1 \<and>
     reserved s1 t y h cx \<and> placementKept s s1 \<and>
     yp1 = yp + sum_list (map (\<lambda>it. getHeightOfItem s (Some it)) pre) \<and>
     (\<forall>z. z \<notin> key ` set pre \<longrightarrow> activeCells s1 z = activeCells s z) \<and>
     ((\<forall>it\<in>set pre. activeCells s (key it) \<noteq> None) \<longrightarrow> nextCellKey s1 = nextCellKey s)"
  using assms
proof (induction pre arbitrary: s idx yp l)
  case Nil
  show ?case
    by (rule exI[of _ s], rule exI[of _ yp], rule exI[of _ l])
       (use Nil in \<open>simp add: placementKept_refl\<close>)
next
  case (Cons it pre)
  let ?s1 = "if lo < yp + getHeightOfItem s (Some it) \<and> l
             then s\<lparr>itemsAboveRenderBlock := int idx\<rparr> else s"
  let ?y = "yp + getHeightOfItem s (Some it) - getHeightOfItem s (Some it)"
  let ?b = "lo < yp + getHeightOfItem s (Some it) \<and> ?y < hi"
  let ?yp = "yp + getHeightOfItem s (Some it)"
  let ?l = "l \<and> yp + getHeightOfItem s (Some it) \<le> lo"
  have f1: "activeCells ?s1 = activeCells s" "nextCellKey ?s1 = nextCellKey s"
    "recycledCells ?s1 = recycledCells s" "maxRecycledCells ?s1 = maxRecycledCells s"
    by simp_all
  have r1: "reserved ?s1 t y h cx" using Cons.prems(1) by (simp add: reserved_def)
  have k1: "placementKept s ?s1" by (simp add: placementKept_def windowKept_def)
  have pc1: "poolConstant ?s1" using Cons.prems(1) by (simp add: reserved_def poolConstant_def)
  have h1: "harmless ?s1 t y h it" using Cons.prems(4) by (simp add: harmless_def)
  have ky: "key it \<noteq> y" using Cons.prems(3) by auto
  have room: "length (recycledCells ?s1) < maxRecycledCells ?s1"
    unfolding f1 using Cons.prems(5) by simp
  from placeCell_reserved[OF r1 ky h1 room, of idx ?y ?b]
  obtain sm where sm: "placeCell ?s1 it idx ?y ?b = Inr sm" "reserved sm t y h cx"
    "length (recycledCells sm) \<le> length (recycledCells ?s1) + 1" by blast
  from placeCell_returns[OF pc1, of it idx ?y ?b] sm(1)
  have "otherCellsKept (key it) ?s1 sm" by simp
  then have k: "\<forall>z. z \<noteq> key it \<longrightarrow> activeCells sm z = activeCells s z"
    "maxRecycledCells sm = maxRecycledCells s"
    "activeCells s (key it) \<noteq> None \<longrightarrow> nextCellKey sm = nextCellKey s"
    unfolding otherCellsKept_def f1 by simp_all
  have d: "distinct (map key pre)" "y \<notin> key ` set pre" using Cons.prems(2,3) by auto
  have hm: "\<forall>i\<in>set pre. harmless sm t y h i"
  proof
    fix i assume i: "i \<in> set pre"
    from distinct_map_head[OF Cons.prems(2) i] have "key i \<noteq> key it" .
    with k(1) have "activeCells sm (key i) = activeCells s (key i)" by simp
    from harmless_cong[OF this] Cons.prems(4) i show "harmless sm t y h i" by simp
  qed
  have cap: "length (recycledCells sm) + length pre \<le> maxRecycledCells sm"
    using sm(3) Cons.prems(5) k(2) unfolding f1 by simp
  from Cons.IH[OF sm(2) d hm cap, of "idx + 1" ?yp ?l]
  obtain s1 yp1 l1 where s1: "placeItems sm lo hi (pre @ rest) (idx + 1) ?yp ?l
            = placeItems s1 lo hi rest (idx + 1 + length pre) yp1 l1"
    "reserved s1 t y h cx" "placementKept sm s1"
    "yp1 = ?yp + sum_list (map (\<lambda>it. getHeightOfItem sm (Some it)) pre)"
    "\<forall>z. z \<notin> key ` set pre \<longrightarrow> activeCells s1 z = activeCells sm z"
    "(\<forall>it\<in>set pre. activeCells sm (key it) \<noteq> None) \<longrightarrow> nextCellKey s1 = nextCellKey sm"
    by blast
  have km: "placementKept s sm"
    using placementKept_trans[OF k1 placeCell_placementKept[OF sm(1)]] .
  have pk: "placementKept s s1" using placementKept_trans[OF km s1(3)] .
  have yq: "yp1 = yp + sum_list (map (\<lambda>it. getHeightOfItem s (Some it)) (it # pre))"
    using s1(4) by (simp add: placementKept_height[OF km])
  have run: "placeItems s lo hi ((it # pre) @ rest) idx yp l
               = placeItems s1 lo hi rest (idx + length (it # pre)) yp1 l1"
    using s1(1) sm(1) by (simp add: placeItems_Cons del: placeItems.simps)
  have fr: "\<forall>z. z \<notin> key ` set (it # pre) \<longrightarrow> activeCells s1 z = activeCells s z"
    using s1(5) k(1) by simp
  have nk: "nextCellKey s1 = nextCellKey s"
    if a: "\<forall>i\<in>set (it # pre). activeCells s (key i) \<noteq> None"
  proof -
    have "\<forall>i\<in>set pre. activeCells sm (key i) \<noteq> None"
    proof
      fix i assume i: "i \<in> set pre"
      from distinct_map_head[OF Cons.prems(2) i] have "key i \<noteq> key it" .
      with k(1) a i show "activeCells sm (key i) \<noteq> None" by simp
    qed
    with s1(6) a k(3) show ?thesis by simp
  qed
  show ?case
    by (rule exI[of _ s1], rule exI[of _ yp1], rule exI[of _ l1])
       (use run s1(2) pk yq fr nk in blast)
qed

text \<open>
  The first loop changes the cells only in the flag \<^verbatim>\<open>shouldUpdate\<close>; the second, when
  \<open>x\<close> is the only key that the new list lacks, recycles the cell of \<open>x\<close> and no other.
\<close>

definition sameCell :: "cell option \<Rightarrow> cell option \<Rightarrow> bool" where
  "sameCell a b =
     (map_option (\<lambda>d. d\<lparr>shouldUpdate := True\<rparr>) a = map_option (\<lambda>d. d\<lparr>shouldUpdate := True\<rparr>) b)"

lemma sameCell_refl: "sameCell a a" by (simp add: sameCell_def)

lemma sameCell_trans: "sameCell a b \<Longrightarrow> sameCell b c \<Longrightarrow> sameCell a c"
  by (simp add: sameCell_def)

lemma sameCell_mark: "sameCell (Some d) (Some (d\<lparr>shouldUpdate := True\<rparr>))"
  by (simp add: sameCell_def)

lemma sameCell_None: "sameCell None b \<longleftrightarrow> b = None"
  by (auto simp: sameCell_def)

lemma sameCell_Some:
  assumes "sameCell (Some d) b"
  shows "\<exists>d'. b = Some d' \<and> itemTemplate d' = itemTemplate d \<and> cachedItemKey d' = cachedItemKey d \<and>
     height_cell d' = height_cell d"
proof -
  from assms obtain d' where b: "b = Some d'"
    and e: "d'\<lparr>shouldUpdate := True\<rparr> = d\<lparr>shouldUpdate := True\<rparr>"
    by (cases b) (auto simp: sameCell_def)
  from arg_cong[OF e, of itemTemplate] arg_cong[OF e, of cachedItemKey] arg_cong[OF e, of height_cell] b
  show ?thesis by simp
qed

lemma buildNewItemMap_returns:
  assumes "distinct (map key xs)" and "\<forall>it\<in>set xs. m (key it) = None"
  shows "\<exists>s1 m1. buildNewItemMap s xs i m = Inr (s1, m1) \<and>
     (\<forall>z. m1 z = None \<longleftrightarrow> m z = None \<and> z \<notin> key ` set xs) \<and>
     props s1 = props s \<and> recycledCells s1 = recycledCells s \<and>
     maxRecycledCells s1 = maxRecycledCells s \<and> nextCellKey s1 = nextCellKey s \<and>
     placementKept s s1 \<and>
     (\<forall>z. z \<notin> key ` set xs \<longrightarrow> activeCells s1 z = activeCells s z) \<and>
     (\<forall>z. sameCell (activeCells s z) (activeCells s1 z))"
  using assms
proof (induction xs arbitrary: s i m)
  case Nil
  then show ?case by (simp add: sameCell_refl placementKept_refl)
next
  case (Cons it xs)
  let ?sm = "case activeCells s (key it) of
               None \<Rightarrow> s
             | Some c \<Rightarrow>
                 (case itemMap s (key it) of
                    None \<Rightarrow>
                      s\<lparr>activeCells := (activeCells s)(key it \<mapsto> c\<lparr>shouldUpdate := True\<rparr>)\<rparr>
                  | Some oldItemIndex \<Rightarrow>
                      if skipRenderIfItemUnchanged (props s) \<or>
                         itemAt (itemList (props s)) (int oldItemIndex) \<noteq> Some it
                      then s\<lparr>activeCells := (activeCells s)(key it \<mapsto> c\<lparr>shouldUpdate := True\<rparr>)\<rparr>
                      else s)"
  let ?m = "m(key it \<mapsto> i)"
  have m0: "m (key it) = None" using Cons.prems(2) by simp
  have run: "buildNewItemMap s (it # xs) i m = buildNewItemMap ?sm xs (i + 1) ?m"
    using m0 by simp
  have f: "props ?sm = props s" "recycledCells ?sm = recycledCells s"
    "maxRecycledCells ?sm = maxRecycledCells s" "nextCellKey ?sm = nextCellKey s"
    by (simp_all split: option.splits)
  have pk: "placementKept s ?sm"
    by (simp add: placementKept_def windowKept_def split: option.splits)
  have a: "\<forall>z. z \<noteq> key it \<longrightarrow> activeCells ?sm z = activeCells s z"
    by (simp split: option.splits)
  have sc: "\<forall>z. sameCell (activeCells s z) (activeCells ?sm z)"
    by (auto simp: sameCell_refl sameCell_mark split: option.splits)
  have d: "distinct (map key xs)" using Cons.prems(1) by simp
  have mm: "\<forall>i'\<in>set xs. ?m (key i') = None"
  proof
    fix i' assume i': "i' \<in> set xs"
    from distinct_map_head[OF Cons.prems(1) i'] Cons.prems(2) i'
    show "?m (key i') = None" by simp
  qed
  from Cons.IH[OF d mm, of ?sm "i + 1"]
  obtain s1 m1 where r: "buildNewItemMap ?sm xs (i + 1) ?m = Inr (s1, m1)"
    and m1: "\<forall>z. m1 z = None \<longleftrightarrow> ?m z = None \<and> z \<notin> key ` set xs"
    and f1: "props s1 = props ?sm" "recycledCells s1 = recycledCells ?sm"
      "maxRecycledCells s1 = maxRecycledCells ?sm" "nextCellKey s1 = nextCellKey ?sm"
    and pk1: "placementKept ?sm s1"
    and a1: "\<forall>z. z \<notin> key ` set xs \<longrightarrow> activeCells s1 z = activeCells ?sm z"
    and sc1: "\<forall>z. sameCell (activeCells ?sm z) (activeCells s1 z)"
    by blast
  have 1: "\<forall>z. m1 z = None \<longleftrightarrow> m z = None \<and> z \<notin> key ` set (it # xs)"
    using m1 by auto
  have 2: "\<forall>z. z \<notin> key ` set (it # xs) \<longrightarrow> activeCells s1 z = activeCells s z"
    using a a1 by simp
  have 3: "\<forall>z. sameCell (activeCells s z) (activeCells s1 z)"
    using sc sc1 sameCell_trans by blast
  note 4 = placementKept_trans[OF pk pk1]
  show ?case
    unfolding run r using 1 2 3 4 f1 unfolding f by blast
qed

definition hiddenIfPooled :: "cell option \<Rightarrow> cell list" where
  "hiddenIfPooled a =
     (case a of
        None \<Rightarrow> []
      | Some d \<Rightarrow> if truthy (itemTemplate d) \<and> isHeightConstant d
                  then [d\<lparr>isVisible := False\<rparr>] else [])"

lemma forgetDeletedItems_one:
  assumes "\<forall>it\<in>set xs. m (key it) = None \<longrightarrow> key it = x"
    and "activeCells s x \<noteq> None \<longrightarrow> length (recycledCells s) < maxRecycledCells s"
  shows "\<exists>s2. forgetDeletedItems s m xs i = Inr s2 \<and> nextCellKey s2 = nextCellKey s \<and>
     maxRecycledCells s2 = maxRecycledCells s \<and> windowKept s s2 \<and>
     (\<forall>z. z \<noteq> x \<longrightarrow> heightCache s2 z = heightCache s z) \<and>
     (\<forall>z. z \<noteq> x \<longrightarrow> activeCells s2 z = activeCells s z) \<and>
     (if x \<in> key ` set xs \<and> m x = None
      then activeCells s2 x = None \<and>
           recycledCells s2 = recycledCells s @ hiddenIfPooled (activeCells s x)
      else activeCells s2 x = activeCells s x \<and> recycledCells s2 = recycledCells s)"
  using assms
proof (induction xs arbitrary: s i)
  case Nil
  then show ?case by (simp add: windowKept_def)
next
  case (Cons it xs)
  have only: "\<forall>it\<in>set xs. m (key it) = None \<longrightarrow> key it = x" using Cons.prems(1) by simp
  show ?case
  proof (cases "m (key it) = None")
    case False
    then have run: "forgetDeletedItems s m (it # xs) i = forgetDeletedItems s m xs (i + 1)"
      by (subst forgetDeletedItems.simps(2)) (simp only: if_False)
    from False have c: "(x \<in> key ` set (it # xs) \<and> m x = None) = (x \<in> key ` set xs \<and> m x = None)"
      by auto
    from Cons.IH[OF only Cons.prems(2), of "i + 1"] show ?thesis
      unfolding run c .
  next
    case True
    with Cons.prems(1) have kx: "key it = x" by simp
    let ?s1 = "if Some (key it) = lastFocusedItemKey s then
                 (if \<not> focusSubsequentItem s Down \<and> \<not> focusSubsequentItem s Up
                  then s\<lparr>lastFocusedItemKey := None\<rparr> else s)
               else s"
    let ?s2 = "if int i < itemsAboveRenderBlock ?s1 then
                 ?s1\<lparr>heightAboveRenderAdjustment :=
                      heightAboveRenderAdjustment ?s1 + getHeightOfItem ?s1 (Some it)\<rparr>
               else ?s1"
    define s3 where "s3 = ?s2\<lparr>heightCache := (heightCache ?s2)(key it := None),
                   pendingMeasurements := pendingMeasurements ?s2 - {key it}\<rparr>"
    have run: "forgetDeletedItems s m (it # xs) i =
       (case (if activeCells s3 (key it) \<noteq> None then recycleCell s3 (key it) else Inr s3) of
          Inl e \<Rightarrow> Inl e
        | Inr s4 \<Rightarrow> forgetDeletedItems s4 m xs (i + 1))"
      unfolding s3_def
      by (subst forgetDeletedItems.simps(2)) (simp only: True Let_def simp_thms if_True)
    have f: "activeCells s3 = activeCells s" "recycledCells s3 = recycledCells s"
      "maxRecycledCells s3 = maxRecycledCells s" "nextCellKey s3 = nextCellKey s"
      unfolding s3_def by simp_all
    have w3: "windowKept s s3" "\<forall>z. z \<noteq> x \<longrightarrow> heightCache s3 z = heightCache s z"
      unfolding s3_def using kx by (simp_all add: windowKept_def)
    have "\<exists>s4. (if activeCells s3 (key it) \<noteq> None then recycleCell s3 (key it) else Inr s3)
              = Inr s4 \<and> nextCellKey s4 = nextCellKey s \<and> maxRecycledCells s4 = maxRecycledCells s \<and>
           (\<forall>z. z \<noteq> x \<longrightarrow> activeCells s4 z = activeCells s z) \<and> activeCells s4 x = None \<and>
           recycledCells s4 = recycledCells s @ hiddenIfPooled (activeCells s x) \<and>
           placementKept s3 s4"
    proof (cases "activeCells s x")
      case None
      then show ?thesis unfolding kx by (simp add: f hiddenIfPooled_def placementKept_refl)
    next
      case (Some d)
      have a: "activeCells s3 x = Some d" "length (recycledCells s3) < maxRecycledCells s3"
        unfolding f using Some Cons.prems(2) by simp_all
      from recycleCell_room[OF a] obtain s' where "recycleCell s3 x = Inr s'" "activeCells s' x = None"
        "\<forall>z. z \<noteq> x \<longrightarrow> activeCells s' z = activeCells s3 z"
        "maxRecycledCells s' = maxRecycledCells s3" "nextCellKey s' = nextCellKey s3"
        "recycledCells s' = recycledCells s3 @
           (if truthy (itemTemplate d) \<and> isHeightConstant d then [d\<lparr>isVisible := False\<rparr>] else [])"
        by blast
      then show ?thesis
        unfolding kx using Some a(1)
        by (simp add: f hiddenIfPooled_def recycleCell_placementKept)
    qed
    then obtain s4 where s4: "(if activeCells s3 (key it) \<noteq> None then recycleCell s3 (key it)
              else Inr s3) = Inr s4"
      and g: "nextCellKey s4 = nextCellKey s" "maxRecycledCells s4 = maxRecycledCells s"
        "\<forall>z. z \<noteq> x \<longrightarrow> activeCells s4 z = activeCells s z" "activeCells s4 x = None"
        "recycledCells s4 = recycledCells s @ hiddenIfPooled (activeCells s x)"
        "placementKept s3 s4"
      by blast
    have w4: "windowKept s s4" "\<forall>z. z \<noteq> x \<longrightarrow> heightCache s4 z = heightCache s z"
      using w3 g(6) by (simp_all add: placementKept_def windowKept_def)
    have p2: "activeCells s4 x \<noteq> None \<longrightarrow> length (recycledCells s4) < maxRecycledCells s4"
      using g(4) by simp
    from Cons.IH[OF only p2, of "i + 1"] obtain s2 where
      s2: "forgetDeletedItems s4 m xs (i + 1) = Inr s2" "nextCellKey s2 = nextCellKey s4"
        "maxRecycledCells s2 = maxRecycledCells s4"
        "\<forall>z. z \<noteq> x \<longrightarrow> activeCells s2 z = activeCells s4 z"
        "activeCells s2 x = None \<and> recycledCells s2 = recycledCells s4"
        "windowKept s4 s2" "\<forall>z. z \<noteq> x \<longrightarrow> heightCache s2 z = heightCache s4 z"
      using g(4) by (auto simp: hiddenIfPooled_def split: if_splits)
    have w2: "windowKept s s2" "\<forall>z. z \<noteq> x \<longrightarrow> heightCache s2 z = heightCache s z"
      using w4 s2(6,7) by (simp_all add: windowKept_def)
    have c: "x \<in> key ` set (it # xs) \<and> m x = None" using kx True by auto
    have r: "forgetDeletedItems s m (it # xs) i = Inr s2"
      unfolding run s4 using s2(1) by simp
    show ?thesis
      unfolding r using c s2(2,3,4,5) g(1,2,3,4,5) w2 by simp
  qed
qed

lemma handleItemListChange_unfold:
  assumes "buildNewItemMap s (itemList p) 0 Map.empty = Inr (s1, m1)"
    and "forgetDeletedItems s1 m1 (itemList (props s1)) 0 = Inr s2"
    and "placeItems (s2\<lparr>itemsAboveRenderBlock := 0, itemsInRenderBlock := 0\<rparr>)
           (lastScrollTop s2 - calcOverdrawAmount s2)
           (lastScrollTop s2 + layoutHeight s2 + calcOverdrawAmount s2)
           (itemList p) 0 (heightAboveRenderAdjustment s2) True = Inr s3"
  shows "\<exists>s'. handleItemListChange s p = Inr s' \<and> activeCells s' = activeCells s3 \<and>
     nextCellKey s' = nextCellKey s3 \<and> recycledCells s' = recycledCells s3 \<and>
     heightAboveRenderAdjustment s' = heightAboveRenderAdjustment s3"
  by (simp add: handleItemListChange_def assms Let_def)

lemma harmless_sameCell:
  assumes "sameCell (activeCells s (key it)) (activeCells s' (key it))" and "harmless s t y h it"
  shows "harmless s' t y h it"
proof (cases "activeCells s (key it)")
  case None
  with assms(1) have "activeCells s' (key it) = None" by (simp add: sameCell_None)
  with None assms(2) show ?thesis by (simp add: harmless_def)
next
  case (Some d)
  with sameCell_Some[of d "activeCells s' (key it)"] assms(1)
  obtain d' where "activeCells s' (key it) = Some d'" "itemTemplate d' = itemTemplate d"
    "cachedItemKey d' = cachedItemKey d" "height_cell d' = height_cell d" by auto
  with Some assms(2) show ?thesis by (simp add: harmless_def)
qed

lemma placeItems_reuses:
  assumes "reserved s t y h cx" and "distinct (map key (pre @ yi # post))"
    and "\<forall>it\<in>set pre. harmless s t y h it"
    and "length (recycledCells s) + length pre \<le> maxRecycledCells s"
    and "key yi = y" and "template yi = t" and "\<not> measureHeight yi" and "height yi = h"
    and "truthy t"
  shows "\<exists>s'. placeItems s lo hi (pre @ yi # post) idx yp l = Inr s' \<and> placementKept s s' \<and>
     (\<forall>z. z \<notin> key ` set (pre @ yi # post) \<longrightarrow> activeCells s' z = activeCells s z) \<and>
     activeCells s' y =
       (if lo < yp + sum_list (map (\<lambda>it. getHeightOfItem s (Some it)) pre) + h \<and>
           yp + sum_list (map (\<lambda>it. getHeightOfItem s (Some it)) pre) < hi
        then Some (cx\<lparr>isVisible := isInitialFillComplete s,
                       top_cell := yp + sum_list (map (\<lambda>it. getHeightOfItem s (Some it)) pre),
                       shouldUpdate := True\<rparr>)
        else None) \<and>
     ((\<forall>it\<in>set (pre @ post). activeCells s (key it) \<noteq> None) \<longrightarrow>
        nextCellKey s' = nextCellKey s)"
proof -
  let ?top = "yp + sum_list (map (\<lambda>it. getHeightOfItem s (Some it)) pre)"
  have d: "distinct (map key pre)" "y \<notin> key ` set pre" "distinct (map key post)"
    "y \<notin> key ` set post" "key ` set pre \<inter> key ` set post = {}"
    using assms(2,5) by auto
  from placeItems_reserved[OF assms(1) d(1,2) assms(3,4), of lo hi "yi # post" idx yp l]
  obtain sa yp1 l1 where sa: "placeItems s lo hi (pre @ yi # post) idx yp l
            = placeItems sa lo hi (yi # post) (idx + length pre) yp1 l1"
    "reserved sa t y h cx" "placementKept s sa" "yp1 = ?top"
    "\<forall>z. z \<notin> key ` set pre \<longrightarrow> activeCells sa z = activeCells s z"
    "(\<forall>it\<in>set pre. activeCells s (key it) \<noteq> None) \<longrightarrow> nextCellKey sa = nextCellKey s"
    by blast
  have hy: "getHeightOfItem sa (Some yi) = h" using assms(7,8) by (simp add: getHeightOfItem_def)
  let ?i = "idx + length pre"
  let ?s1 = "if lo < yp1 + h \<and> l1 then sa\<lparr>itemsAboveRenderBlock := int ?i\<rparr> else sa"
  let ?b = "lo < yp1 + h \<and> yp1 < hi"
  have f1: "activeCells ?s1 = activeCells sa" "nextCellKey ?s1 = nextCellKey sa"
    "isInitialFillComplete ?s1 = isInitialFillComplete sa" by simp_all
  have k1: "placementKept sa ?s1" by (simp add: placementKept_def windowKept_def)
  have r1: "reserved ?s1 t y h cx" using sa(2) by (simp add: reserved_def)
  have cons: "placeItems sa lo hi (yi # post) ?i yp1 l1 =
     (case placeCell ?s1 yi ?i yp1 ?b of
        Inl e \<Rightarrow> Inl e
      | Inr s' \<Rightarrow> placeItems s' lo hi post (?i + 1) (yp1 + h) (l1 \<and> yp1 + h \<le> lo))"
    unfolding placeItems_Cons hy by simp
  from placeCell_target[OF r1 assms(5,6,7,8,9), of ?i yp1 ?b]
  obtain sb where sb: "placeCell ?s1 yi ?i yp1 ?b = Inr sb" "poolConstant sb"
    "nextCellKey sb = nextCellKey sa"
    "\<forall>z. z \<noteq> y \<longrightarrow> activeCells sb z = activeCells sa z"
    "activeCells sb y =
       (if ?b then Some (cx\<lparr>isVisible := isInitialFillComplete sa, top_cell := yp1,
                           shouldUpdate := True\<rparr>)
        else None)"
    unfolding f1 by blast
  from placeItems_returns[OF sb(2), of lo hi post "?i + 1" "yp1 + h" "l1 \<and> yp1 + h \<le> lo"]
  obtain s' where s': "placeItems sb lo hi post (?i + 1) (yp1 + h) (l1 \<and> yp1 + h \<le> lo) = Inr s'"
    "placementKept sb s'"
    "\<forall>z. z \<notin> key ` set post \<longrightarrow> activeCells s' z = activeCells sb z"
    "distinct (map key post) \<and> (\<forall>it\<in>set post. activeCells sb (key it) \<noteq> None) \<longrightarrow>
        nextCellKey s' = nextCellKey sb"
    by blast
  have run: "placeItems s lo hi (pre @ yi # post) idx yp l = Inr s'"
    unfolding sa(1) cons sb(1) using s'(1) by simp
  have pk: "placementKept s s'"
    using placementKept_trans[OF placementKept_trans[OF placementKept_trans[OF sa(3) k1]
            placeCell_placementKept[OF sb(1)]] s'(2)] .
  have fr: "\<forall>z. z \<notin> key ` set (pre @ yi # post) \<longrightarrow> activeCells s' z = activeCells s z"
    using s'(3) sb(4) sa(5) assms(5) by (auto simp: image_Un)
  have fc: "isInitialFillComplete sa = isInitialFillComplete s"
    using sa(3) by (simp add: placementKept_def windowKept_def)
  have cy: "activeCells s' y =
       (if lo < ?top + h \<and> ?top < hi
        then Some (cx\<lparr>isVisible := isInitialFillComplete s, top_cell := ?top,
                       shouldUpdate := True\<rparr>)
        else None)"
    using s'(3) d(4) sb(5) unfolding sa(4) fc by simp
  have nk: "nextCellKey s' = nextCellKey s"
    if a: "\<forall>it\<in>set (pre @ post). activeCells s (key it) \<noteq> None"
  proof -
    have "\<forall>i\<in>set post. activeCells sb (key i) \<noteq> None"
    proof
      fix i assume i: "i \<in> set post"
      with d(4,5) have "key i \<noteq> y" "key i \<notin> key ` set pre" by auto
      with sb(4) sa(5) have "activeCells sb (key i) = activeCells s (key i)" by simp
      with a i show "activeCells sb (key i) \<noteq> None" by simp
    qed
    with s'(4) d(3) sb(3) sa(6) a show ?thesis by simp
  qed
  from run pk fr cy nk show ?thesis by blast
qed

lemma handleItemListChange_reuses:
  assumes "distinct (map key (itemList p))" and "itemList p = pre @ yi # post"
    and "activeCells s x = Some c" and "itemTemplate c = t" and "truthy t"
    and "isHeightConstant c"
    and "x \<in> key ` set (itemList (props s))" and "x \<notin> key ` set (itemList p)"
    and "\<forall>it\<in>set (itemList (props s)). key it \<noteq> x \<longrightarrow> key it \<in> key ` set (itemList p)"
    and "key yi = y" and "template yi = t" and "\<not> measureHeight yi"
    and "activeCells s y = None"
    and "\<forall>d\<in>set (recycledCells s). isHeightConstant d \<and> itemTemplate d \<noteq> t"
    and "length (recycledCells s) + length pre < maxRecycledCells s"
    and "\<forall>it\<in>set pre. harmless s t y (height yi) it"
  shows "\<exists>s'. handleItemListChange s p = Inr s' \<and> activeCells s' x = None \<and>
     activeCells s' y =
       (if lastScrollTop s - calcOverdrawAmount s
             < heightAboveRenderAdjustment s'
                 + sum_list (map (\<lambda>it. getHeightOfItem s (Some it)) pre) + height yi \<and>
           heightAboveRenderAdjustment s' + sum_list (map (\<lambda>it. getHeightOfItem s (Some it)) pre)
             < lastScrollTop s + layoutHeight s + calcOverdrawAmount s
        then Some (c\<lparr>isVisible := isInitialFillComplete s,
                      top_cell := heightAboveRenderAdjustment s'
                        + sum_list (map (\<lambda>it. getHeightOfItem s (Some it)) pre),
                      shouldUpdate := True\<rparr>)
        else None) \<and>
     ((\<forall>it\<in>set (pre @ post). activeCells s (key it) \<noteq> None) \<longrightarrow>
        nextCellKey s' = nextCellKey s)"
proof -
  let ?cx = "c\<lparr>isVisible := False\<rparr>"
  let ?h = "height yi"
  have e0: "\<forall>it\<in>set (itemList p). Map.empty (key it) = (None :: nat option)" by simp
  from buildNewItemMap_returns[OF assms(1) e0, of s 0]
  obtain s1 m1 where b: "buildNewItemMap s (itemList p) 0 Map.empty = Inr (s1, m1)"
    and m1: "\<forall>z. m1 z = None \<longleftrightarrow> z \<notin> key ` set (itemList p)"
    and f1: "props s1 = props s" "recycledCells s1 = recycledCells s"
      "maxRecycledCells s1 = maxRecycledCells s" "nextCellKey s1 = nextCellKey s"
    and pk1: "placementKept s s1"
    and a1: "\<forall>z. z \<notin> key ` set (itemList p) \<longrightarrow> activeCells s1 z = activeCells s z"
    and sc: "\<forall>z. sameCell (activeCells s z) (activeCells s1 z)"
    by auto
  have x1: "activeCells s1 x = Some c" using a1 assms(3,8) by simp
  have only: "\<forall>it\<in>set (itemList (props s1)). m1 (key it) = None \<longrightarrow> key it = x"
    unfolding f1 using m1 assms(9) by blast
  have room: "activeCells s1 x \<noteq> None \<longrightarrow> length (recycledCells s1) < maxRecycledCells s1"
    unfolding f1 using assms(15) by simp
  have cnd: "x \<in> key ` set (itemList (props s1)) \<and> m1 x = None"
    unfolding f1 using assms(7,8) m1 by simp
  from forgetDeletedItems_one[OF only room, of 0] cnd
  obtain s2 where fg: "forgetDeletedItems s1 m1 (itemList (props s1)) 0 = Inr s2"
    and f2: "nextCellKey s2 = nextCellKey s1" "maxRecycledCells s2 = maxRecycledCells s1"
      "\<forall>z. z \<noteq> x \<longrightarrow> activeCells s2 z = activeCells s1 z" "activeCells s2 x = None"
      "recycledCells s2 = recycledCells s1 @ hiddenIfPooled (activeCells s1 x)"
    and w2: "windowKept s1 s2" "\<forall>z. z \<noteq> x \<longrightarrow> heightCache s2 z = heightCache s1 z"
    by auto
  have pool2: "recycledCells s2 = recycledCells s @ [?cx]"
    using f2(5) x1 assms(4,5,6) by (simp add: f1 hiddenIfPooled_def)
  let ?s2 = "s2\<lparr>itemsAboveRenderBlock := 0, itemsInRenderBlock := 0\<rparr>"
  have yB: "y \<in> key ` set (itemList p)" using assms(2,10) by auto
  with assms(8) have yx: "y \<noteq> x" by auto
  from sc have "sameCell (activeCells s y) (activeCells s1 y)" by simp
  then have y1: "activeCells s1 y = None" using assms(13) by (simp add: sameCell_None)
  have res: "reserved ?s2 t y ?h ?cx"
    using f2(3) yx y1 pool2 assms(4,6,14)
    by (auto simp: reserved_def pooledFirst_def)
  have hm: "\<forall>it\<in>set pre. harmless ?s2 t y ?h it"
  proof
    fix it assume it: "it \<in> set pre"
    with assms(2,8) have "key it \<noteq> x" by auto
    with f2(3) have "activeCells ?s2 (key it) = activeCells s1 (key it)" by simp
    with sc have "sameCell (activeCells s (key it)) (activeCells ?s2 (key it))" by simp
    from harmless_sameCell[OF this] assms(16) it show "harmless ?s2 t y ?h it" by simp
  qed
  have cap: "length (recycledCells ?s2) + length pre \<le> maxRecycledCells ?s2"
    using pool2 f2(2) f1(3) assms(15) by simp
  have d2: "distinct (map key (pre @ yi # post))" using assms(1,2) by simp
  have w: "windowKept s s2"
    using pk1 w2(1) by (simp add: placementKept_def windowKept_def)
  have win: "lastScrollTop s2 = lastScrollTop s" "layoutHeight s2 = layoutHeight s"
    "calcOverdrawAmount s2 = calcOverdrawAmount s"
    "isInitialFillComplete ?s2 = isInitialFillComplete s"
    using w windowKept_overdraw[OF w] by (simp_all add: windowKept_def)
  have hs: "map (\<lambda>it. getHeightOfItem ?s2 (Some it)) pre
              = map (\<lambda>it. getHeightOfItem s (Some it)) pre"
  proof (rule map_cong[OF refl])
    fix it assume it: "it \<in> set pre"
    with assms(2,8) have "key it \<noteq> x" by auto
    with w2(2) pk1 have "heightCache ?s2 (key it) = heightCache s (key it)"
      by (simp add: placementKept_def)
    then show "getHeightOfItem ?s2 (Some it) = getHeightOfItem s (Some it)"
      by (simp add: getHeightOfItem_def)
  qed
  from placeItems_reuses[OF res d2 hm cap assms(10,11,12) refl assms(5),
         of "lastScrollTop s2 - calcOverdrawAmount s2"
            "lastScrollTop s2 + layoutHeight s2 + calcOverdrawAmount s2" 0
            "heightAboveRenderAdjustment s2" True]
  obtain s3 where pl: "placeItems ?s2 (lastScrollTop s2 - calcOverdrawAmount s2)
           (lastScrollTop s2 + layoutHeight s2 + calcOverdrawAmount s2)
           (itemList p) 0 (heightAboveRenderAdjustment s2) True = Inr s3"
    and pk3: "placementKept ?s2 s3"
    and f3: "\<forall>z. z \<notin> key ` set (itemList p) \<longrightarrow> activeCells s3 z = activeCells ?s2 z"
      "activeCells s3 y =
       (if lastScrollTop s - calcOverdrawAmount s
             < heightAboveRenderAdjustment s2
                 + sum_list (map (\<lambda>it. getHeightOfItem s (Some it)) pre) + ?h \<and>
           heightAboveRenderAdjustment s2 + sum_list (map (\<lambda>it. getHeightOfItem s (Some it)) pre)
             < lastScrollTop s + layoutHeight s + calcOverdrawAmount s
        then Some (?cx\<lparr>isVisible := isInitialFillComplete s,
                      top_cell := heightAboveRenderAdjustment s2
                        + sum_list (map (\<lambda>it. getHeightOfItem s (Some it)) pre),
                      shouldUpdate := True\<rparr>)
        else None)"
      "(\<forall>it\<in>set (pre @ post). activeCells ?s2 (key it) \<noteq> None) \<longrightarrow>
        nextCellKey s3 = nextCellKey ?s2"
    unfolding assms(2) hs win by blast
  from handleItemListChange_unfold[OF b fg pl] obtain s' where
    s': "handleItemListChange s p = Inr s'" "activeCells s' = activeCells s3"
      "nextCellKey s' = nextCellKey s3"
      "heightAboveRenderAdjustment s' = heightAboveRenderAdjustment s3" by blast
  have ha: "heightAboveRenderAdjustment s2 = heightAboveRenderAdjustment s'"
    using s'(4) pk3 by (simp add: placementKept_def)
  have 1: "activeCells s' x = None" using s'(2) f3(1) assms(8) f2(4) by simp
  have 2: "activeCells s' y =
       (if lastScrollTop s - calcOverdrawAmount s
             < heightAboveRenderAdjustment s'
                 + sum_list (map (\<lambda>it. getHeightOfItem s (Some it)) pre) + ?h \<and>
           heightAboveRenderAdjustment s' + sum_list (map (\<lambda>it. getHeightOfItem s (Some it)) pre)
             < lastScrollTop s + layoutHeight s + calcOverdrawAmount s
        then Some (c\<lparr>isVisible := isInitialFillComplete s,
                      top_cell := heightAboveRenderAdjustment s'
                        + sum_list (map (\<lambda>it. getHeightOfItem s (Some it)) pre),
                      shouldUpdate := True\<rparr>)
        else None)"
    using s'(2) f3(2) unfolding ha by simp
  have 3: "nextCellKey s' = nextCellKey s"
    if a: "\<forall>it\<in>set (pre @ post). activeCells s (key it) \<noteq> None"
  proof -
    have "\<forall>it\<in>set (pre @ post). activeCells ?s2 (key it) \<noteq> None"
    proof
      fix it assume it: "it \<in> set (pre @ post)"
      with assms(2,8) have "key it \<noteq> x" by auto
      with f2(3) have e: "activeCells ?s2 (key it) = activeCells s1 (key it)" by simp
      from a it obtain d where "activeCells s (key it) = Some d" by auto
      moreover from sc have "sameCell (activeCells s (key it)) (activeCells s1 (key it))" by simp
      ultimately have "sameCell (Some d) (activeCells s1 (key it))" by simp
      from sameCell_Some[OF this] have "activeCells s1 (key it) \<noteq> None" by auto
      with e show "activeCells ?s2 (key it) \<noteq> None" by simp
    qed
    with f3(3) s'(3) f2(1) f1(4) show ?thesis by simp
  qed
  from s'(1) 1 2 3 show ?thesis by blast
qed

text \<open>
  C4, amended. Let the key \<open>k\<close> have no active cell, the template \<open>t\<close> be non-empty, the
  height constant, and all recycled cells be of constant height. If a recycled cell has
  the template, \<^verbatim>\<open>_allocateCell\<close> takes the first exact match on template, cached key
  and height, else the first cell with the template, out of the recycled list and makes it
  the cell of \<open>k\<close> without touching the key counter; otherwise it makes a new cell with
  the next key. Hence, if the capacity of the pool is positive, no recycled cell has the
  template, and \<open>x\<close> has an active cell with the template and a constant height, then
  recycling \<open>x\<close> and allocating for \<open>k\<close> at once gives \<open>k\<close> the very cell of \<open>x\<close>, and
  no new cell is made.

  For two sequential lists: let the list of the instance be replaced by the list
  \<open>pre @ yi # post\<close> of distinct keys, where \<open>yi\<close> is the new item with the key \<open>k\<close>, the
  template and a constant height. Let \<open>x\<close> be the only item of the old list that the new
  list lacks, with an active cell \<open>c\<close> of the template and of constant height; let no
  recycled cell have the template; let the pool have room for its cells, the cell of \<open>x\<close>
  and one more cell for every item before \<open>yi\<close>; and let every item before \<open>yi\<close> either
  have an active cell that is no exact match for \<open>yi\<close>, or, having none, have another
  template or a measured height. Then \<^verbatim>\<open>_handleItemListChange\<close> returns normally and
  \<open>x\<close> has no cell any more. The item \<open>yi\<close> has a cell after the pass exactly if it lies
  in the window of the render block, that is, if its offset (the pending adjustment plus
  the heights of the items before it) is below the bottom limit and its end is above the
  top limit; and then its cell is the cell object \<open>c\<close> of \<open>x\<close>, moved to that offset, shown
  if the initial fill is complete, and marked for update. If moreover every other item of
  the new list had an active cell, the key counter is unchanged: no cell was made.
\<close>

theorem allocateCell_recycles:
  assumes "activeCells s k = None" and "truthy t"
    and "\<forall>c\<in>set (recycledCells s). isHeightConstant c"
  shows "(\<forall>i. bestOptionIndex (recycledCells s) k t h = Some i \<longrightarrow>
      i < length (recycledCells s) \<and> itemTemplate (recycledCells s ! i) = t \<and>
      (if \<exists>c\<in>set (recycledCells s). itemTemplate c = t \<and> cachedItemKey c = k \<and> height_cell c = h
       then cachedItemKey (recycledCells s ! i) = k \<and> height_cell (recycledCells s ! i) = h \<and>
            (\<forall>j<i. \<not> (itemTemplate (recycledCells s ! j) = t \<and>
                         cachedItemKey (recycledCells s ! j) = k \<and>
                         height_cell (recycledCells s ! j) = h))
       else (\<forall>j<i. itemTemplate (recycledCells s ! j) \<noteq> t)) \<and>
      (\<exists>s'. allocateCell s k t idx True h y v = Inr s' \<and>
         activeCells s' k = Some ((recycledCells s ! i)
                                   \<lparr>isVisible := v, top_cell := y, shouldUpdate := True\<rparr>) \<and>
         recycledCells s' = splice1 (recycledCells s) i \<and>
         nextCellKey s' = nextCellKey s \<and> isRenderDirty s')) \<and>
   (bestOptionIndex (recycledCells s) k t h = None \<longrightarrow>
      (\<forall>c\<in>set (recycledCells s). itemTemplate c \<noteq> t) \<and>
      (\<exists>s' c'. allocateCell s k t idx True h y v = Inr s' \<and> activeCells s' k = Some c' \<and>
         virtualKey c' = nextCellKey s \<and> nextCellKey s' = nextCellKey s + 1 \<and>
         recycledCells s' = recycledCells s \<and> isRenderDirty s')) \<and>
   (\<forall>x c. activeCells s x = Some c \<and> itemTemplate c = t \<and> isHeightConstant c \<and>
       0 < maxRecycledCells s \<and> (\<forall>c'\<in>set (recycledCells s). itemTemplate c' \<noteq> t) \<longrightarrow>
      (\<exists>s1 s2. recycleCell s x = Inr s1 \<and> allocateCell s1 k t idx True h y v = Inr s2 \<and>
         activeCells s2 x = None \<and>
         activeCells s2 k = Some (c\<lparr>isVisible := v, top_cell := y, shouldUpdate := True\<rparr>) \<and>
         nextCellKey s2 = nextCellKey s)) \<and>
   (\<forall>x c p pre yi post.
       activeCells s x = Some c \<and> itemTemplate c = t \<and> isHeightConstant c \<and>
       (\<forall>c'\<in>set (recycledCells s). itemTemplate c' \<noteq> t) \<and>
       x \<in> key ` set (itemList (props s)) \<and> x \<notin> key ` set (itemList p) \<and>
       (\<forall>it\<in>set (itemList (props s)). key it \<noteq> x \<longrightarrow> key it \<in> key ` set (itemList p)) \<and>
       distinct (map key (itemList p)) \<and> itemList p = pre @ yi # post \<and>
       key yi = k \<and> template yi = t \<and> \<not> measureHeight yi \<and>
       length (recycledCells s) + length pre < maxRecycledCells s \<and>
       (\<forall>it\<in>set pre.
          case activeCells s (key it) of
            None \<Rightarrow> template it \<noteq> t \<or> measureHeight it
          | Some d \<Rightarrow> \<not> (itemTemplate d = t \<and> cachedItemKey d = k \<and> height_cell d = height yi)) \<longrightarrow>
      (\<exists>s'. handleItemListChange s p = Inr s' \<and> activeCells s' x = None \<and>
         activeCells s' k =
           (if lastScrollTop s - calcOverdrawAmount s
                 < heightAboveRenderAdjustment s'
                     + sum_list (map (\<lambda>it. getHeightOfItem s (Some it)) pre) + height yi \<and>
               heightAboveRenderAdjustment s'
                   + sum_list (map (\<lambda>it. getHeightOfItem s (Some it)) pre)
                 < lastScrollTop s + layoutHeight s + calcOverdrawAmount s
            then Some (c\<lparr>isVisible := isInitialFillComplete s,
                          top_cell := heightAboveRenderAdjustment s'
                            + sum_list (map (\<lambda>it. getHeightOfItem s (Some it)) pre),
                          shouldUpdate := True\<rparr>)
            else None) \<and>
         ((\<forall>it\<in>set (pre @ post). activeCells s (key it) \<noteq> None) \<longrightarrow>
            nextCellKey s' = nextCellKey s)))"
proof (intro conjI allI impI)
  fix i assume b: "bestOptionIndex (recycledCells s) k t h = Some i"
  from bestOptionIndex_Some[OF b]
  show "i < length (recycledCells s)" "itemTemplate (recycledCells s ! i) = t"
    "if \<exists>c\<in>set (recycledCells s). itemTemplate c = t \<and> cachedItemKey c = k \<and> height_cell c = h
       then cachedItemKey (recycledCells s ! i) = k \<and> height_cell (recycledCells s ! i) = h \<and>
            (\<forall>j<i. \<not> (itemTemplate (recycledCells s ! j) = t \<and>
                         cachedItemKey (recycledCells s ! j) = k \<and>
                         height_cell (recycledCells s ! j) = h))
       else (\<forall>j<i. itemTemplate (recycledCells s ! j) \<noteq> t)"
    by blast+
  show "\<exists>s'. allocateCell s k t idx True h y v = Inr s' \<and>
         activeCells s' k = Some ((recycledCells s ! i)
                                   \<lparr>isVisible := v, top_cell := y, shouldUpdate := True\<rparr>) \<and>
         recycledCells s' = splice1 (recycledCells s) i \<and>
         nextCellKey s' = nextCellKey s \<and> isRenderDirty s'"
    by (simp add: allocateCell_reuse[OF assms b])
next
  assume b: "bestOptionIndex (recycledCells s) k t h = None"
  then show "\<forall>c\<in>set (recycledCells s). itemTemplate c \<noteq> t"
    by (simp add: bestOptionIndex_None)
  from b show "\<exists>s' c'. allocateCell s k t idx True h y v = Inr s' \<and> activeCells s' k = Some c' \<and>
         virtualKey c' = nextCellKey s \<and> nextCellKey s' = nextCellKey s + 1 \<and>
         recycledCells s' = recycledCells s \<and> isRenderDirty s'"
    by (simp add: allocateCell_fresh[OF assms(1)])
next
  fix x c
  assume a: "activeCells s x = Some c \<and> itemTemplate c = t \<and> isHeightConstant c \<and>
       0 < maxRecycledCells s \<and> (\<forall>c'\<in>set (recycledCells s). itemTemplate c' \<noteq> t)"
  let ?c = "c\<lparr>isVisible := False\<rparr>"
  let ?rc = "if maxRecycledCells s < Suc (length (recycledCells s))
             then tl (recycledCells s) @ [?c] else recycledCells s @ [?c]"
  from a assms(1) have xk: "x \<noteq> k" by auto
  from recycleCell_active[of s x c] a assms(2) obtain s1 where
    r: "recycleCell s x = Inr s1" and ax: "activeCells s1 x = None"
    and rc: "recycledCells s1 = ?rc"
    by (auto split: if_splits)
  have fr: "nextCellKey s1 = nextCellKey s"
    using arg_cong[OF recycleCell_frame[OF r], of nextCellKey] by simp
  have ak: "activeCells s1 k = None"
    using r a assms(1) xk
    by (auto simp: recycleCell_def setCellTopAndVisibility_def Let_def split: if_splits)
  obtain pre where pre: "recycledCells s1 = pre @ [?c]" "\<forall>c'\<in>set pre. itemTemplate c' \<noteq> t"
    using rc a by (cases "recycledCells s") (auto split: if_splits)
  have const: "\<forall>c'\<in>set (recycledCells s1). isHeightConstant c'"
    using rc a assms(3) by (cases "recycledCells s") (auto split: if_splits)
  have f1: "findIndex (pre @ [?c]) P = Some (length pre)"
    if "\<forall>c'\<in>set pre. \<not> P c'" "P ?c" for P
    using that by (induction pre) auto
  have f2: "findIndex (pre @ [?c]) P = None" if "\<forall>c'\<in>set pre. \<not> P c'" "\<not> P ?c" for P
    using that by (simp add: findIndex_None)
  have best: "bestOptionIndex (recycledCells s1) k t h = Some (length pre)"
  proof (cases "cachedItemKey c = k \<and> height_cell c = h")
    case True
    with f1[of "\<lambda>c. itemTemplate c = t \<and> cachedItemKey c = k \<and> height_cell c = h"] pre a
    show ?thesis by (simp add: bestOptionIndex_def)
  next
    case False
    with f2[of "\<lambda>c. itemTemplate c = t \<and> cachedItemKey c = k \<and> height_cell c = h"]
         f1[of "\<lambda>c. itemTemplate c = t"] pre a
    show ?thesis by (auto simp: bestOptionIndex_def)
  qed
  from allocateCell_reuse[OF ak assms(2) const best, of idx y v] pre(1) ax xk fr
  show "\<exists>s1 s2. recycleCell s x = Inr s1 \<and> allocateCell s1 k t idx True h y v = Inr s2 \<and>
         activeCells s2 x = None \<and>
         activeCells s2 k = Some (c\<lparr>isVisible := v, top_cell := y, shouldUpdate := True\<rparr>) \<and>
         nextCellKey s2 = nextCellKey s"
    using r by simp
next
  fix x c and p :: props and pre yi post
  assume a: "activeCells s x = Some c \<and> itemTemplate c = t \<and> isHeightConstant c \<and>
       (\<forall>c'\<in>set (recycledCells s). itemTemplate c' \<noteq> t) \<and>
       x \<in> key ` set (itemList (props s)) \<and> x \<notin> key ` set (itemList p) \<and>
       (\<forall>it\<in>set (itemList (props s)). key it \<noteq> x \<longrightarrow> key it \<in> key ` set (itemList p)) \<and>
       distinct (map key (itemList p)) \<and> itemList p = pre @ yi # post \<and>
       key yi = k \<and> template yi = t \<and> \<not> measureHeight yi \<and>
       length (recycledCells s) + length pre < maxRecycledCells s \<and>
       (\<forall>it\<in>set pre.
          case activeCells s (key it) of
            None \<Rightarrow> template it \<noteq> t \<or> measureHeight it
          | Some d \<Rightarrow> \<not> (itemTemplate d = t \<and> cachedItemKey d = k \<and> height_cell d = height yi))"
  from a assms(3) have pool: "\<forall>d\<in>set (recycledCells s). isHeightConstant d \<and> itemTemplate d \<noteq> t"
    by blast
  from a have hm: "\<forall>it\<in>set pre. harmless s t k (height yi) it"
    unfolding harmless_def by blast
  from a have 1: "distinct (map key (itemList p))" "itemList p = pre @ yi # post"
    "activeCells s x = Some c" "itemTemplate c = t" "isHeightConstant c"
    "x \<in> key ` set (itemList (props s))" "x \<notin> key ` set (itemList p)"
    "\<forall>it\<in>set (itemList (props s)). key it \<noteq> x \<longrightarrow> key it \<in> key ` set (itemList p)"
    "key yi = k" "template yi = t" "\<not> measureHeight yi"
    "length (recycledCells s) + length pre < maxRecycledCells s"
    by blast+
  show "\<exists>s'. handleItemListChange s p = Inr s' \<and> activeCells s' x = None \<and>
         activeCells s' k =
           (if lastScrollTop s - calcOverdrawAmount s
                 < heightAboveRenderAdjustment s'
                     + sum_list (map (\<lambda>it. getHeightOfItem s (Some it)) pre) + height yi \<and>
               heightAboveRenderAdjustment s'
                   + sum_list (map (\<lambda>it. getHeightOfItem s (Some it)) pre)
                 < lastScrollTop s + layoutHeight s + calcOverdrawAmount s
            then Some (c\<lparr>isVisible := isInitialFillComplete s,
                          top_cell := heightAboveRenderAdjustment s'
                            + sum_list (map (\<lambda>it. getHeightOfItem s (Some it)) pre),
                          shouldUpdate := True\<rparr>)
            else None) \<and>
         ((\<forall>it\<in>set (pre @ post). activeCells s (key it) \<noteq> None) \<longrightarrow>
            nextCellKey s' = nextCellKey s)"
    by (rule handleItemListChange_reuses[OF 1(1,2,3,4) assms(2) 1(5,6,7,8,9,10,11) assms(1) pool
          1(12) hm])
qed

theorem allocateCell_recycles_witness:
  "(\<exists>s1 s2. recycleCell oneCellView ''x'' = Inr s1 \<and>
      allocateCell s1 ''y'' (Some ''row'') 0 True 50 0 True = Inr s2 \<and>
      activeCells s2 ''x'' = None \<and>
      map_option virtualKey (activeCells s2 ''y'') = Some 1 \<and> nextCellKey s2 = 2) \<and>
   (\<exists>s'. handleItemListChange twoCellView (exampleProps [''old'', ''y'']) = Inr s' \<and>
      activeCells s' ''x'' = None \<and>
      activeCells s' ''y'' = Some ((rowCell 2 ''x'')\<lparr>top_cell := 50, shouldUpdate := True\<rparr>) \<and>
      nextCellKey s' = 3) \<and>
   map_sum id (\<lambda>s. (map_option virtualKey (activeCells s ''y''), nextCellKey s))
     (receiveProps oneCellView (exampleProps [''y''])) = Inr (Some 1, 2) \<and>
   map_sum id (\<lambda>s. (map_option virtualKey (activeCells s ''y''), nextCellKey s))
     (receiveProps twoCellView (exampleProps [''old'', ''y''])) = Inr (Some 2, 3)"
proof -
  have h: "activeCells oneCellView ''y'' = None" "truthy (Some ''row'')"
    "\<forall>c\<in>set (recycledCells oneCellView). isHeightConstant c"
    by (simp_all add: oneCellView_def newListView_def truthy_def)
  have x: "activeCells oneCellView ''x'' = Some (rowCell 1 ''x'') \<and>
     itemTemplate (rowCell 1 ''x'') = Some ''row'' \<and> isHeightConstant (rowCell 1 ''x'') \<and>
     0 < maxRecycledCells oneCellView \<and>
     (\<forall>c'\<in>set (recycledCells oneCellView). itemTemplate c' \<noteq> Some ''row'')"
    by (simp add: oneCellView_def newListView_def rowCell_def)
  have e: "map_sum id (\<lambda>s. (map_option virtualKey (activeCells s ''y''), nextCellKey s))
     (receiveProps oneCellView (exampleProps [''y''])) = Inr (Some 1, 2)"
    by code_simp
  have e2: "map_sum id (\<lambda>s. (map_option virtualKey (activeCells s ''y''), nextCellKey s))
     (receiveProps twoCellView (exampleProps [''old'', ''y''])) = Inr (Some 2, 3)"
    by code_simp
  note one = allocateCell_recycles[OF h, of 50 0 0 True]
  from one[THEN conjunct2, THEN conjunct2, THEN conjunct1, rule_format, OF x]
  obtain s1 s2 where 1: "recycleCell oneCellView ''x'' = Inr s1"
    "allocateCell s1 ''y'' (Some ''row'') 0 True 50 0 True = Inr s2"
    "activeCells s2 ''x'' = None"
    "activeCells s2 ''y'' = Some ((rowCell 1 ''x'')\<lparr>isVisible := True, top_cell := 0,
                                    shouldUpdate := True\<rparr>)"
    "nextCellKey s2 = nextCellKey oneCellView"
    by blast
  have n1: "nextCellKey oneCellView = 2" by (simp add: oneCellView_def newListView_def)
  let ?c = "(rowCell 2 ''x'')\<lparr>top_cell := 50\<rparr>"
  have h2: "activeCells twoCellView ''y'' = None" "truthy (Some ''row'')"
    "\<forall>c\<in>set (recycledCells twoCellView). isHeightConstant c"
    by (simp_all add: twoCellView_def newListView_def truthy_def)
  have x2: "activeCells twoCellView ''x'' = Some ?c \<and> itemTemplate ?c = Some ''row'' \<and>
       isHeightConstant ?c \<and>
       (\<forall>c'\<in>set (recycledCells twoCellView). itemTemplate c' \<noteq> Some ''row'') \<and>
       ''x'' \<in> key ` set (itemList (props twoCellView)) \<and>
       ''x'' \<notin> key ` set (itemList (exampleProps [''old'', ''y''])) \<and>
       (\<forall>it\<in>set (itemList (props twoCellView)). key it \<noteq> ''x'' \<longrightarrow>
           key it \<in> key ` set (itemList (exampleProps [''old'', ''y'']))) \<and>
       distinct (map key (itemList (exampleProps [''old'', ''y'']))) \<and>
       itemList (exampleProps [''old'', ''y'']) = [rowItem ''old''] @ rowItem ''y'' # [] \<and>
       key (rowItem ''y'') = ''y'' \<and> template (rowItem ''y'') = Some ''row'' \<and>
       \<not> measureHeight (rowItem ''y'') \<and>
       length (recycledCells twoCellView) + length [rowItem ''old''] < maxRecycledCells twoCellView \<and>
       (\<forall>it\<in>set [rowItem ''old''].
          case activeCells twoCellView (key it) of
            None \<Rightarrow> template it \<noteq> Some ''row'' \<or> measureHeight it
          | Some d \<Rightarrow> \<not> (itemTemplate d = Some ''row'' \<and> cachedItemKey d = ''y'' \<and>
                           height_cell d = height (rowItem ''y'')))"
    by (simp add: twoCellView_def newListView_def exampleProps_def rowItem_def rowCell_def)
  have a2: "\<forall>it\<in>set ([rowItem ''old''] @ []). activeCells twoCellView (key it) \<noteq> None"
    by (simp add: twoCellView_def rowItem_def)
  have n2: "nextCellKey twoCellView = 3" by (simp add: twoCellView_def newListView_def)
  have e3: "map_sum id heightAboveRenderAdjustment
     (handleItemListChange twoCellView (exampleProps [''old'', ''y''])) = Inr 0"
    by code_simp
  have v2: "lastScrollTop twoCellView = 0" "layoutHeight twoCellView = 120"
    "calcOverdrawAmount twoCellView = 512" "isInitialFillComplete twoCellView"
    "getHeightOfItem twoCellView (Some (rowItem ''old'')) = 50" "height (rowItem ''y'') = 50"
    by (simp_all add: twoCellView_def newListView_def calcOverdrawAmount_def getHeightOfItem_def
          rowItem_def)
  note two = allocateCell_recycles[OF h2, of 50 0 0 True]
  from two[THEN conjunct2, THEN conjunct2, THEN conjunct2, rule_format, OF x2]
  obtain s' where 2: "handleItemListChange twoCellView (exampleProps [''old'', ''y'']) = Inr s'"
    "activeCells s' ''x'' = None"
    "activeCells s' ''y'' =
       (if lastScrollTop twoCellView - calcOverdrawAmount twoCellView
             < heightAboveRenderAdjustment s'
                 + sum_list (map (\<lambda>it. getHeightOfItem twoCellView (Some it)) [rowItem ''old''])
                 + height (rowItem ''y'') \<and>
           heightAboveRenderAdjustment s'
               + sum_list (map (\<lambda>it. getHeightOfItem twoCellView (Some it)) [rowItem ''old''])
             < lastScrollTop twoCellView + layoutHeight twoCellView + calcOverdrawAmount twoCellView
        then Some (?c\<lparr>isVisible := isInitialFillComplete twoCellView,
                      top_cell := heightAboveRenderAdjustment s'
                        + sum_list (map (\<lambda>it. getHeightOfItem twoCellView (Some it))
                                     [rowItem ''old'']),
                      shouldUpdate := True\<rparr>)
        else None)"
    "(\<forall>it\<in>set ([rowItem ''old''] @ []). activeCells twoCellView (key it) \<noteq> None) \<longrightarrow>
        nextCellKey s' = nextCellKey twoCellView"
    by blast
  from e3 2(1) have h0: "heightAboveRenderAdjustment s' = 0" by simp
  have c3: "activeCells s' ''y'' = Some ((rowCell 2 ''x'')\<lparr>top_cell := 50, shouldUpdate := True\<rparr>)"
    using 2(3) unfolding h0 v2 by (simp add: v2 rowCell_def)
  from 2(4) a2 n2 have n3: "nextCellKey s' = 3" by simp
  from 1 n1 have A: "\<exists>s1 s2. recycleCell oneCellView ''x'' = Inr s1 \<and>
      allocateCell s1 ''y'' (Some ''row'') 0 True 50 0 True = Inr s2 \<and>
      activeCells s2 ''x'' = None \<and>
      map_option virtualKey (activeCells s2 ''y'') = Some 1 \<and> nextCellKey s2 = 2"
    by (auto simp: rowCell_def)
  from 2(1,2) c3 n3 have B: "\<exists>s'. handleItemListChange twoCellView (exampleProps [''old'', ''y'']) = Inr s' \<and>
      activeCells s' ''x'' = None \<and>
      activeCells s' ''y'' = Some ((rowCell 2 ''x'')\<lparr>top_cell := 50, shouldUpdate := True\<rparr>) \<and>
      nextCellKey s' = 3"
    by blast
  from A B e e2 show ?thesis by blast
qed

text \<open>
  The scenario of C4 as stated fails when the pool already holds a cell with the
  template: after \<^verbatim>\<open>[old, x]\<close>, \<^verbatim>\<open>[x]\<close> and \<^verbatim>\<open>[y]\<close>, the item \<^verbatim>\<open>y\<close> is
  rendered in the cell 1 that \<^verbatim>\<open>old\<close> had, and the cell 2 of \<^verbatim>\<open>x\<close> stays in
  the pool. It also fails when an item before the new one needs a cell: after
  \<^verbatim>\<open>[x, a]\<close>, where only \<^verbatim>\<open>x\<close> has a cell, and \<^verbatim>\<open>[a, y]\<close>, the item
  \<^verbatim>\<open>a\<close> is rendered in the cell 1 of \<^verbatim>\<open>x\<close>, and \<^verbatim>\<open>y\<close> in the new cell 2.
\<close>

theorem recycling_takes_oldest_counterexample:
  "map_option virtualKey (activeCells twoCellView ''x'') = Some 2 \<and>
   map_sum id (\<lambda>s. (map_option virtualKey (activeCells s ''y''), map virtualKey (recycledCells s),
                     nextCellKey s))
     (case receiveProps twoCellView (exampleProps [''x'']) of
        Inl e \<Rightarrow> Inl e
      | Inr s \<Rightarrow> receiveProps s (exampleProps [''y''])) = Inr (Some 1, [2], 3) \<and>
   map_option virtualKey (activeCells tallView ''x'') = Some 1 \<and>
   activeCells tallView ''a'' = None \<and> recycledCells tallView = [] \<and>
   map_sum id (\<lambda>s. (map_option virtualKey (activeCells s ''a''),
                     map_option virtualKey (activeCells s ''y''), nextCellKey s))
     (receiveProps tallView (exampleProps [''a'', ''y''])) = Inr (Some 1, Some 2, 3)"
  by code_simp

subsection \<open>Change-skipping\<close>

text \<open>
  C2. The claim fails on the code. With change-skipping enabled, the list
  \<^verbatim>\<open>[old, x]\<close> replaced by \<^verbatim>\<open>[x]\<close>, the descriptor of \<^verbatim>\<open>x\<close> unchanged and its
  cell not marked before, \<^verbatim>\<open>_handleItemListChange\<close> marks the cell of \<^verbatim>\<open>x\<close> with
  \<^verbatim>\<open>shouldUpdate\<close>; with change-skipping disabled the same change leaves it unmarked.
\<close>

theorem skip_marks_unchanged_cell:
  "skipRenderIfItemUnchanged (props skipView) \<and>
   itemAt (itemList (props skipView)) 1 = Some (rowItem ''x'') \<and>
   itemAt (itemList (exampleProps [''x''])) 0 = Some (rowItem ''x'') \<and>
   map_option shouldUpdate (activeCells skipView ''x'') = Some False \<and>
   map_sum id (\<lambda>s. map_option shouldUpdate (activeCells s ''x''))
     (handleItemListChange skipView ((exampleProps [''x''])\<lparr>skipRenderIfItemUnchanged := True\<rparr>))
     = Inr (Some True) \<and>
   map_sum id (\<lambda>s. map_option shouldUpdate (activeCells s ''x''))
     (handleItemListChange twoCellView (exampleProps [''x''])) = Inr (Some False)"
  by code_simp

end
